theory Spec2Isabelle
  imports Main "HOL-Library.Word" "HOL-Library.Sublist" "HOL-Library.Multiset"
begin

section \<open>Frontend validators (frontend/src/validation.js)\<close>

text \<open>
  \<^verbatim>\<open>parseInt(port, 10)\<close> of ECMAScript on a string: leading white space is dropped, one
  sign is read, then the longest prefix of decimal digits; no digit gives NaN, modelled
  as \<open>None\<close>. The result is a double in JavaScript; the comparisons below are against
  0, -1 and 65565, which rounding of a long digit string cannot cross, so the exact
  integer is kept. A string is a list of 8-bit characters here, read as UTF-16 code
  units below 256; the white space of ECMAScript (\<^verbatim>\<open>WhiteSpace\<close> and
  \<^verbatim>\<open>LineTerminator\<close>) in that range is TAB, LF, VT, FF, CR, SP and the no-break
  space U+00A0. Its other members (U+FEFF, U+2028, U+2029 and the further space
  separators) are code units from 256 on, which a string of this type does not hold.
\<close>

definition isWhiteSpace :: "char \<Rightarrow> bool" where
  "isWhiteSpace c =
     (c \<in> set [CHR 0x09, CHR 0x0A, CHR 0x0B, CHR 0x0C, CHR 0x0D, CHR 0x20, CHR 0xA0])"

definition isDigit :: "char \<Rightarrow> bool" where
  "isDigit c = (c \<in> set ''0123456789'')"

definition digitVal :: "char \<Rightarrow> int" where
  "digitVal c = int (of_char c) - 48"

definition parseInt10 :: "string \<Rightarrow> int option" where
  "parseInt10 s =
     (let S = dropWhile isWhiteSpace s;
          sign = (case S of c # _ \<Rightarrow> if c = CHR ''-'' then - 1 else 1 | [] \<Rightarrow> (1::int));
          S' = (case S of c # r \<Rightarrow> if c = CHR ''-'' \<or> c = CHR ''+'' then r else S | [] \<Rightarrow> []);
          Z = takeWhile isDigit S'
      in if Z = [] then None else Some (sign * foldl (\<lambda>n c. 10 * n + digitVal c) 0 Z))"

text \<open>
  \<^verbatim>\<open>isValidPort: (port, required) =>
      parseInt(port, 10) > (required ? 0 : -1) && parseInt(port, 10) <= 65565\<close>
  A comparison with NaN is false.
\<close>

definition isValidPort :: "string \<Rightarrow> bool \<Rightarrow> bool" where
  "isValidPort port required =
     (case parseInt10 port of
        None \<Rightarrow> False
      | Some p \<Rightarrow> p > (if required then 0 else - 1) \<and> p \<le> 65565)"

text \<open>\<^verbatim>\<open>isValidAddress: (address) => true // TODO\<close>\<close>

definition isValidAddress :: "string \<Rightarrow> bool" where
  "isValidAddress address = True"

section \<open>Setup pane (ConfigurationPane: validateSettings, saveSettings)\<close>

record config =
  server_address :: string
  flag_regex :: string
  auth_required :: bool

record settings =
  config :: config
  accounts :: "(string \<times> string) list"

text \<open>The part of the component state the two functions touch; an unset field is \<open>None\<close>.\<close>

record pane_state =
  pane_settings :: settings
  serverAddressError :: "string option"
  flagRegexError :: "string option"

text \<open>
  \<^verbatim>\<open>validateSettings = (settings) => {
      let valid = true;
      if (!validation.isValidAddress(settings.config.server_address, true)) {
          this.setState({serverAddressError: "invalid ip_address"});
          valid = false;
      }
      if (settings.config.flag_regex.length < 8) {
          this.setState({flagRegexError: "flag_regex.length < 8"});
          valid = false;
      }
      return valid;
  }\<close>
  The state is passed in and returned with the value.
\<close>

definition validateSettings :: "settings \<Rightarrow> pane_state \<Rightarrow> bool \<times> pane_state" where
  "validateSettings s st =
     (let (valid1, st1) =
            (if \<not> isValidAddress (server_address (config s))
             then (False, st\<lparr>serverAddressError := Some ''invalid ip_address''\<rparr>)
             else (True, st));
          (valid2, st2) =
            (if length (flag_regex (config s)) < 8
             then (False, st1\<lparr>flagRegexError := Some ''flag_regex.length < 8''\<rparr>)
             else (valid1, st1))
      in (valid2, st2))"

text \<open>
  \<^verbatim>\<open>saveSettings\<close> posts the settings to \<^verbatim>\<open>/setup\<close> exactly when
  \<^verbatim>\<open>validateSettings\<close> returns true; the request sent is the first component
  (\<open>None\<close>: nothing is sent).
\<close>

definition saveSettings :: "pane_state \<Rightarrow> settings option \<times> pane_state" where
  "saveSettings st =
     (let (valid, st') = validateSettings (pane_settings st) st
      in (if valid then Some (pane_settings st) else None, st'))"

section \<open>Connections view (frontend/src/views/Connections.js)\<close>

text \<open>A JavaScript reference that may be \<^verbatim>\<open>null\<close> or \<^verbatim>\<open>undefined\<close>.\<close>

datatype 'a js = Null | Undefined | Val 'a

text \<open>\<^verbatim>\<open>xs[i]\<close>: reading past the end of an array gives \<^verbatim>\<open>undefined\<close>.\<close>

definition js_nth :: "'a list \<Rightarrow> nat \<Rightarrow> 'a js" where
  "js_nth xs i = (if i < length xs then Val (xs ! i) else Undefined)"

text \<open>\<^verbatim>\<open>xs.slice(a, b)\<close> for indices that are not negative: the elements from \<open>a\<close> up to, not including, \<open>b\<close>.\<close>

definition js_slice :: "'a list \<Rightarrow> nat \<Rightarrow> nat \<Rightarrow> 'a list" where
  "js_slice xs a b = take (min b (length xs) - a) (drop a xs)"

definition maxConnections :: nat where
  "maxConnections = 500"

record 'c conn_state =
  loading :: bool
  connections :: "'c list"
  firstConnection :: "'c js"
  lastConnection :: "'c js"

text \<open>
  The query parameters \<^verbatim>\<open>loadConnections\<close> looks at: \<^verbatim>\<open>params.from\<close> and
  \<^verbatim>\<open>params.to\<close> (\<open>None\<close>: undefined).
\<close>

record load_params =
  p_from :: "string option"
  p_to :: "string option"

text \<open>
  \<^verbatim>\<open>loadConnections(params)\<close>, from the answer \<open>res\<close> of the backend on: the three
  branches on \<^verbatim>\<open>params.from\<close>, \<^verbatim>\<open>params.to\<close> and neither, and the final
  \<^verbatim>\<open>setState\<close>. The rules, fetched once and not read by the branches, are left out.
\<close>

definition loadConnections :: "load_params \<Rightarrow> 'c list \<Rightarrow> 'c conn_state \<Rightarrow> 'c conn_state" where
  "loadConnections params res st =
     (if p_from params \<noteq> None then
        (if length res > 0 then
           (let conns = connections st @ res;
                lastC = js_nth conns (length conns - 1)
            in if length conns > maxConnections then
                 (let conns' = js_slice conns (length conns - maxConnections) (length conns - 1)
                  in st\<lparr>loading := False, connections := conns',
                        firstConnection := js_nth conns' 0, lastConnection := lastC\<rparr>)
               else st\<lparr>loading := False, connections := conns, lastConnection := lastC\<rparr>)
         else st\<lparr>loading := False\<rparr>)
      else if p_to params \<noteq> None then
        (if length res > 0 then
           (let conns = res @ connections st;
                firstC = js_nth conns 0
            in if length conns > maxConnections then
                 (let conns' = js_slice conns 0 maxConnections
                  in st\<lparr>loading := False, connections := conns',
                        firstConnection := firstC,
                        lastConnection := js_nth conns' (maxConnections - 1)\<rparr>)
               else st\<lparr>loading := False, connections := conns, firstConnection := firstC\<rparr>)
         else st\<lparr>loading := False\<rparr>)
      else
        (if length res > 0 then
           st\<lparr>loading := False, connections := res,
              firstConnection := js_nth res 0,
              lastConnection := js_nth res (length res - 1)\<rparr>
         else st\<lparr>loading := False, connections := [],
                 firstConnection := Null, lastConnection := Null\<rparr>))"

section \<open>Stream reader (GetConnectionPayload and findMatchesBetween)\<close>

type_synonym uint64 = "64 word"

text \<open>\<^verbatim>\<open>type PatternSlice [2]uint64\<close>: the pair \<open>(slice[0], slice[1])\<close>.\<close>

type_synonym PatternSlice = "uint64 \<times> uint64"

record RegexSlice =
  From :: uint64
  To :: uint64

text \<open>
  The body of the inner loop of \<^verbatim>\<open>findMatchesBetween\<close> for one slice: \<open>None\<close> is
  the \<^verbatim>\<open>continue\<close>, \<open>Some\<close> the slice appended.
\<close>

definition sliceBetween :: "uint64 \<Rightarrow> uint64 \<Rightarrow> PatternSlice \<Rightarrow> RegexSlice option" where
  "sliceBetween from to sl =
     (if from > snd sl \<or> to \<le> fst sl then None
      else Some \<lparr>From = (if from > fst sl then 0 else fst sl - from),
                 To = (if to \<le> snd sl then to - from else snd sl - from)\<rparr>)"

text \<open>
  \<^verbatim>\<open>patternMatches\<close> is a Go map; \<^verbatim>\<open>range\<close> visits its entries in an order the
  language leaves unspecified and the runtime varies from one loop to the next. The
  map is given as the list of its entries in the order this \<^verbatim>\<open>range\<close> visits them.
\<close>

type_synonym pattern_map = "(nat \<times> PatternSlice list) list"

definition findMatchesBetween :: "pattern_map \<Rightarrow> uint64 \<Rightarrow> uint64 \<Rightarrow> RegexSlice list" where
  "findMatchesBetween patternMatches from to =
     concat (map (\<lambda>(_, slices). List.map_filter (sliceBetween from to) slices) patternMatches)"

subsection \<open>Data\<close>

type_synonym byte = "8 word"

text \<open>
  \<^verbatim>\<open>ConnectionStream\<close>, with the fields the reader reads. \<^verbatim>\<open>ID\<close> is a RowID, whose
  zero value is 0 here (\<^verbatim>\<open>ID.IsZero()\<close>). The key fields \<^verbatim>\<open>connection_id\<close>,
  \<^verbatim>\<open>from_client\<close> and \<^verbatim>\<open>document_index\<close> are the place of the document in the
  store below. A \<^verbatim>\<open>time.Time\<close> is its \<^verbatim>\<open>UnixNano()\<close>.
\<close>

record ConnectionStream =
  ID :: nat
  Payload :: "byte list"
  BlocksIndexes :: "int list"
  BlocksTimestamps :: "int list"
  BlocksLoss :: "bool list"
  PatternMatches :: pattern_map

text \<open>
  \<^verbatim>\<open>Payload\<close>. \<^verbatim>\<open>Metadata\<close> is an interface value of the parsers package: \<open>None\<close> is
  \<^verbatim>\<open>nil\<close>.
\<close>

record 'm Payload =
  FromClient :: bool
  Content :: string
  Metadata :: "'m option"
  IsMetadataContinuation :: bool
  Index :: int
  Timestamp :: int
  IsRetransmitted :: bool
  RegexMatches :: "RegexSlice list"

record QueryFormat =
  Format :: string
  Skip :: uint64
  Limit :: uint64

definition DefaultQueryFormatLimit :: uint64 where
  "DefaultQueryFormatLimit = 8024"

text \<open>
  The stream documents of one connection in the store: the documents of the client
  side and of the server side, each listed by \<^verbatim>\<open>document_index\<close>.
\<close>

record store =
  clientDocs :: "ConnectionStream list"
  serverDocs :: "ConnectionStream list"

definition zeroStream :: ConnectionStream where
  "zeroStream = \<lparr>ID = 0, Payload = [], BlocksIndexes = [], BlocksTimestamps = [],
                  BlocksLoss = [], PatternMatches = []\<rparr>"

text \<open>
  \<^verbatim>\<open>getConnectionStream\<close>: the document with the given side and index, and the zero
  value of \<^verbatim>\<open>ConnectionStream\<close> when the store has none (\<^verbatim>\<open>First\<close> leaves
  \<^verbatim>\<open>result\<close> untouched). A failing store, on which the function panics, is not
  modelled.
\<close>

definition getConnectionStream :: "store \<Rightarrow> bool \<Rightarrow> nat \<Rightarrow> ConnectionStream" where
  "getConnectionStream db fromClient documentIndex =
     (let docs = (if fromClient then clientDocs db else serverDocs db)
      in if documentIndex < length docs then docs ! documentIndex else zeroStream)"

subsection \<open>Run-time panics of Go\<close>

datatype panic = IndexOutOfRange | SliceBoundsOutOfRange

text \<open>\<^verbatim>\<open>xs[i]\<close> for an index that is not negative.\<close>

definition go_index :: "'a list \<Rightarrow> nat \<Rightarrow> panic + 'a" where
  "go_index xs i = (if i < length xs then Inr (xs ! i) else Inl IndexOutOfRange)"

text \<open>\<^verbatim>\<open>xs[low:high]\<close>, for a slice whose capacity is its length.\<close>

definition go_slice :: "'a list \<Rightarrow> int \<Rightarrow> int \<Rightarrow> panic + 'a list" where
  "go_slice xs low high =
     (if 0 \<le> low \<and> low \<le> high \<and> high \<le> int (length xs)
      then Inr (take (nat (high - low)) (drop (nat low) xs))
      else Inl SliceBoundsOutOfRange)"

subsection \<open>The local variables of GetConnectionPayload\<close>

text \<open>
  The cursors into the two half-streams, and the variables the output is built in.
  \<^verbatim>\<open>payload\<close>, \<^verbatim>\<open>lastContentSlice\<close> and \<^verbatim>\<open>sideChanged\<close> are written in every
  iteration before they are read, so they are values of the iteration.

  A \<^verbatim>\<open>*Payload\<close> is an index into \<open>heap\<close>, the list of the Payload objects the
  function has allocated, in the order of allocation: \<^verbatim>\<open>payloads\<close> and
  \<^verbatim>\<open>payloadsBuffer\<close> hold pointers to the same objects, and \<^verbatim>\<open>updateMetadata\<close>
  writes through them.
\<close>

record cursors =
  clientBlocksIndex :: nat
  serverBlocksIndex :: nat
  clientDocumentIndex :: nat
  serverDocumentIndex :: nat
  clientStream :: ConnectionStream
  serverStream :: ConnectionStream

record 'm accum =
  clientIndex :: uint64
  serverIndex :: uint64
  globalIndex :: uint64
  heap :: "'m Payload list"
  payloads :: "nat list"
  payloadsBuffer :: "nat list"
  contentChunkBuffer :: "byte list"
  lastClient :: bool
  lastServer :: bool

definition hasClientBlocks :: "cursors \<Rightarrow> bool" where
  "hasClientBlocks cur = (clientBlocksIndex cur < length (BlocksIndexes (clientStream cur)))"

definition hasServerBlocks :: "cursors \<Rightarrow> bool" where
  "hasServerBlocks cur = (serverBlocksIndex cur < length (BlocksIndexes (serverStream cur)))"

subsection \<open>One iteration of the loop\<close>

text \<open>
  The condition of the \<^verbatim>\<open>if\<close> at the head of the loop body, with the short circuit
  of \<^verbatim>\<open>&&\<close> and \<^verbatim>\<open>||\<close>: true when the next payload is from the client.
\<close>

definition nextFromClient :: "cursors \<Rightarrow> panic + bool" where
  "nextFromClient cur =
     (if \<not> hasClientBlocks cur then Inr False
      else if \<not> hasServerBlocks cur then Inr True
      else (case go_index (BlocksTimestamps (clientStream cur)) (clientBlocksIndex cur) of
              Inl e \<Rightarrow> Inl e
            | Inr ct \<Rightarrow>
               (case go_index (BlocksTimestamps (serverStream cur)) (serverBlocksIndex cur) of
                  Inl e \<Rightarrow> Inl e
                | Inr st \<Rightarrow> Inr (ct \<le> st))))"

text \<open>
  What a branch reads of its stream for the block at \<^verbatim>\<open>blocksIndex\<close>: \<^verbatim>\<open>start\<close>,
  \<^verbatim>\<open>size = uint64(end - start)\<close>, the bytes \<^verbatim>\<open>Payload[start:end]\<close>, the timestamp, the
  loss flag and the pattern matches of the document.
\<close>

record block =
  b_start :: int
  b_size :: uint64
  b_content :: "byte list"
  b_timestamp :: int
  b_loss :: bool
  b_matches :: pattern_map

definition readBlock :: "ConnectionStream \<Rightarrow> nat \<Rightarrow> panic + block" where
  "readBlock stream blocksIndex =
     (case go_index (BlocksIndexes stream) blocksIndex of
        Inl e \<Rightarrow> Inl e
      | Inr start \<Rightarrow>
         (case (if blocksIndex + 1 < length (BlocksIndexes stream)
                then go_index (BlocksIndexes stream) (blocksIndex + 1)
                else Inr (int (length (Payload stream)))) of
            Inl e \<Rightarrow> Inl e
          | Inr end \<Rightarrow>
             (case go_slice (Payload stream) start end of
                Inl e \<Rightarrow> Inl e
              | Inr content \<Rightarrow>
                 (case go_index (BlocksTimestamps stream) blocksIndex of
                    Inl e \<Rightarrow> Inl e
                  | Inr ts \<Rightarrow>
                     (case go_index (BlocksLoss stream) blocksIndex of
                        Inl e \<Rightarrow> Inl e
                      | Inr loss \<Rightarrow>
                          Inr \<lparr>b_start = start, b_size = word_of_int (end - start),
                               b_content = content, b_timestamp = ts, b_loss = loss,
                               b_matches = PatternMatches stream\<rparr>)))))"

text \<open>
  The client branch on the output variables: the new Payload is allocated, the
  indexes advance by \<^verbatim>\<open>size\<close>, and
  \<^verbatim>\<open>sideChanged, lastClient, lastServer = lastServer, true, false\<close>. The result is the
  pointer \<^verbatim>\<open>payload\<close>, \<^verbatim>\<open>sideChanged\<close> and the variables. \<open>decode\<close> is
  \<^verbatim>\<open>DecodeBytes\<close>, which is not part of the reader.
\<close>

definition emitClient ::
  "(byte list \<Rightarrow> string \<Rightarrow> string) \<Rightarrow> QueryFormat \<Rightarrow> block \<Rightarrow> 'm accum \<Rightarrow> nat \<times> bool \<times> 'm accum" where
  "emitClient decode format b acc =
     (length (heap acc), lastServer acc,
      acc\<lparr>heap := heap acc @
             [\<lparr>FromClient = True, Content = decode (b_content b) (Format format),
               Metadata = None, IsMetadataContinuation = False,
               Index = b_start b, Timestamp = b_timestamp b, IsRetransmitted = b_loss b,
               RegexMatches = findMatchesBetween (b_matches b) (clientIndex acc)
                                (clientIndex acc + b_size b)\<rparr>],
          clientIndex := clientIndex acc + b_size b,
          globalIndex := globalIndex acc + b_size b,
          lastClient := True, lastServer := False\<rparr>)"

text \<open>The server branch: \<^verbatim>\<open>sideChanged, lastClient, lastServer = lastClient, false, true\<close>.\<close>

definition emitServer ::
  "(byte list \<Rightarrow> string \<Rightarrow> string) \<Rightarrow> QueryFormat \<Rightarrow> block \<Rightarrow> 'm accum \<Rightarrow> nat \<times> bool \<times> 'm accum" where
  "emitServer decode format b acc =
     (length (heap acc), lastClient acc,
      acc\<lparr>heap := heap acc @
             [\<lparr>FromClient = False, Content = decode (b_content b) (Format format),
               Metadata = None, IsMetadataContinuation = False,
               Index = b_start b, Timestamp = b_timestamp b, IsRetransmitted = b_loss b,
               RegexMatches = findMatchesBetween (b_matches b) (serverIndex acc)
                                (serverIndex acc + b_size b)\<rparr>],
          serverIndex := serverIndex acc + b_size b,
          globalIndex := globalIndex acc + b_size b,
          lastClient := False, lastServer := True\<rparr>)"

text \<open>
  \<^verbatim>\<open>clientBlocksIndex++\<close> or \<^verbatim>\<open>serverBlocksIndex++\<close>, then the two \<^verbatim>\<open>if\<close>s that
  fetch the next document of a side that has no block left.
\<close>

definition consumeBlock :: "bool \<Rightarrow> cursors \<Rightarrow> cursors" where
  "consumeBlock fromClient cur =
     (if fromClient then cur\<lparr>clientBlocksIndex := clientBlocksIndex cur + 1\<rparr>
      else cur\<lparr>serverBlocksIndex := serverBlocksIndex cur + 1\<rparr>)"

definition advanceClient :: "store \<Rightarrow> cursors \<Rightarrow> cursors" where
  "advanceClient db cur =
     (if \<not> hasClientBlocks cur
      then cur\<lparr>clientDocumentIndex := clientDocumentIndex cur + 1,
               clientBlocksIndex := 0,
               clientStream := getConnectionStream db True (clientDocumentIndex cur + 1)\<rparr>
      else cur)"

definition advanceServer :: "store \<Rightarrow> cursors \<Rightarrow> cursors" where
  "advanceServer db cur =
     (if \<not> hasServerBlocks cur
      then cur\<lparr>serverDocumentIndex := serverDocumentIndex cur + 1,
               serverBlocksIndex := 0,
               serverStream := getConnectionStream db False (serverDocumentIndex cur + 1)\<rparr>
      else cur)"

text \<open>
  The \<^verbatim>\<open>for\<close> of \<^verbatim>\<open>updateMetadata\<close> over \<^verbatim>\<open>payloadsBuffer\<close>, writing through the
  pointers, and \<^verbatim>\<open>updateMetadata\<close> itself. \<open>parse\<close> is \<^verbatim>\<open>parsers.Parse\<close>, which
  is not part of the reader.
\<close>

fun setMetadata :: "'m option \<Rightarrow> bool \<Rightarrow> nat list \<Rightarrow> 'm Payload list \<Rightarrow> 'm Payload list" where
  "setMetadata metadata isMetadataContinuation [] h = h"
| "setMetadata metadata isMetadataContinuation (elem # rest) h =
     setMetadata metadata True rest
       (h[elem := (h ! elem)\<lparr>Metadata := metadata,
                              IsMetadataContinuation := isMetadataContinuation\<rparr>])"

definition updateMetadata :: "(byte list \<Rightarrow> 'm option) \<Rightarrow> 'm accum \<Rightarrow> 'm accum" where
  "updateMetadata parse acc =
     acc\<lparr>heap := setMetadata (parse (contentChunkBuffer acc)) False (payloadsBuffer acc) (heap acc),
         payloadsBuffer := [],
         contentChunkBuffer := []\<rparr>"

text \<open>
  The rest of the loop body, from \<^verbatim>\<open>if sideChanged\<close> to the \<^verbatim>\<open>return\<close> inside the
  loop. \<open>bothZero\<close> is \<^verbatim>\<open>clientStream.ID.IsZero() && serverStream.ID.IsZero()\<close>; the
  flag returned is true when the function returns here.
\<close>

definition collect ::
  "(byte list \<Rightarrow> 'm option) \<Rightarrow> QueryFormat \<Rightarrow> nat \<Rightarrow> byte list \<Rightarrow> bool \<Rightarrow> bool \<Rightarrow> 'm accum
     \<Rightarrow> 'm accum \<times> bool" where
  "collect parse format payload lastContentSlice sideChanged bothZero acc =
     (let acc1 = (if sideChanged then updateMetadata parse acc else acc);
          acc2 = acc1\<lparr>payloadsBuffer := payloadsBuffer acc1 @ [payload],
                      contentChunkBuffer := contentChunkBuffer acc1 @ lastContentSlice\<rparr>;
          acc3 = (if bothZero then updateMetadata parse acc2 else acc2);
          acc4 = (if globalIndex acc3 > Skip format
                  then acc3\<lparr>payloads := payloads acc3 @ [payload]\<rparr> else acc3)
      in if globalIndex acc4 > Skip format + Limit format
         then (updateMetadata parse acc4, True)
         else (acc4, False))"

definition bothZero :: "cursors \<Rightarrow> bool" where
  "bothZero cur = (ID (clientStream cur) = 0 \<and> ID (serverStream cur) = 0)"

text \<open>The loop body: \<open>Inl\<close> is a panic, the flag says that the function returns.\<close>

definition iteration ::
  "(byte list \<Rightarrow> string \<Rightarrow> string) \<Rightarrow> (byte list \<Rightarrow> 'm option) \<Rightarrow> store \<Rightarrow> QueryFormat
     \<Rightarrow> cursors \<times> 'm accum \<Rightarrow> panic + ((cursors \<times> 'm accum) \<times> bool)" where
  "iteration decode parse db format = (\<lambda>(cur, acc).
     case nextFromClient cur of
       Inl e \<Rightarrow> Inl e
     | Inr fromClient \<Rightarrow>
        (case (if fromClient then readBlock (clientStream cur) (clientBlocksIndex cur)
               else readBlock (serverStream cur) (serverBlocksIndex cur)) of
           Inl e \<Rightarrow> Inl e
         | Inr b \<Rightarrow>
            (let (payload, sideChanged, acc1) =
                   (if fromClient then emitClient decode format b acc
                    else emitServer decode format b acc);
                 cur1 = advanceServer db (advanceClient db (consumeBlock fromClient cur));
                 (acc2, stop) = collect parse format payload (b_content b) sideChanged
                                  (bothZero cur1) acc1
             in Inr ((cur1, acc2), stop))))"

text \<open>The blocks a side has not yet emitted: the measure under which the loop ends.\<close>

definition blocksLeft :: "ConnectionStream list \<Rightarrow> ConnectionStream \<Rightarrow> nat \<Rightarrow> nat \<Rightarrow> nat" where
  "blocksLeft docs stream blocksIndex documentIndex =
     (length (BlocksIndexes stream) - blocksIndex) +
     sum_list (map (\<lambda>d. length (BlocksIndexes d)) (drop (Suc documentIndex) docs))"

definition remaining :: "store \<Rightarrow> cursors \<Rightarrow> nat" where
  "remaining db cur =
     blocksLeft (clientDocs db) (clientStream cur) (clientBlocksIndex cur) (clientDocumentIndex cur) +
     blocksLeft (serverDocs db) (serverStream cur) (serverBlocksIndex cur) (serverDocumentIndex cur)"

subsection \<open>The loop and the function\<close>

text \<open>Every iteration that does not panic emits one block, so the loop ends.\<close>

lemma sum_drop_getConnectionStream:
  "sum_list (map (\<lambda>d. length (BlocksIndexes d)) (drop n docs)) =
   length (BlocksIndexes (if n < length docs then docs ! n else zeroStream)) +
   sum_list (map (\<lambda>d. length (BlocksIndexes d)) (drop (Suc n) docs))"
proof (cases "n < length docs")
  case True
  then have "drop n docs = docs ! n # drop (Suc n) docs"
    by (simp add: Cons_nth_drop_Suc)
  with True show ?thesis by simp
next
  case False
  then show ?thesis by (simp add: zeroStream_def)
qed

lemma remaining_advanceClient: "remaining db (advanceClient db cur) = remaining db cur"
  using sum_drop_getConnectionStream [of "Suc (clientDocumentIndex cur)" "clientDocs db"]
  by (simp add: remaining_def advanceClient_def blocksLeft_def hasClientBlocks_def
      getConnectionStream_def)

lemma remaining_advanceServer: "remaining db (advanceServer db cur) = remaining db cur"
  using sum_drop_getConnectionStream [of "Suc (serverDocumentIndex cur)" "serverDocs db"]
  by (simp add: remaining_def advanceServer_def blocksLeft_def hasServerBlocks_def
      getConnectionStream_def)

lemma remaining_consumeBlock:
  "(if fromClient then hasClientBlocks cur else hasServerBlocks cur) \<Longrightarrow>
   remaining db (consumeBlock fromClient cur) < remaining db cur"
  by (auto simp: remaining_def consumeBlock_def blocksLeft_def hasClientBlocks_def
      hasServerBlocks_def)

lemma nextFromClient_True: "nextFromClient cur = Inr True \<Longrightarrow> hasClientBlocks cur"
  by (auto simp: nextFromClient_def split: if_splits sum.splits)

lemma readBlock_Inr: "readBlock stream i = Inr b \<Longrightarrow> i < length (BlocksIndexes stream)"
  by (auto simp: readBlock_def go_index_def split: if_splits sum.splits)

lemma iteration_decreases:
  assumes "iteration decode parse db format (cur, acc) = Inr ((cur', acc'), stop)"
  shows "remaining db cur' < remaining db cur"
proof -
  from assms obtain fromClient b where
    n: "nextFromClient cur = Inr fromClient" and
    r: "(if fromClient then readBlock (clientStream cur) (clientBlocksIndex cur)
         else readBlock (serverStream cur) (serverBlocksIndex cur)) = Inr b" and
    c: "cur' = advanceServer db (advanceClient db (consumeBlock fromClient cur))"
    by (auto simp: iteration_def Let_def split: sum.splits prod.splits)
  have "if fromClient then hasClientBlocks cur else hasServerBlocks cur"
    using n r by (auto simp: nextFromClient_True hasServerBlocks_def dest: readBlock_Inr)
  then show ?thesis
    by (simp add: c remaining_advanceClient remaining_advanceServer remaining_consumeBlock)
qed

function loop ::
  "(byte list \<Rightarrow> string \<Rightarrow> string) \<Rightarrow> (byte list \<Rightarrow> 'm option) \<Rightarrow> store \<Rightarrow> QueryFormat
     \<Rightarrow> cursors \<times> 'm accum \<Rightarrow> panic + (cursors \<times> 'm accum)" where
  "loop decode parse db format s =
     (if bothZero (fst s) then Inr s
      else (case iteration decode parse db format s of
              Inl e \<Rightarrow> Inl e
            | Inr (s', stop) \<Rightarrow> if stop then Inr s' else loop decode parse db format s'))"
  by pat_completeness auto
termination
proof (relation "measure (\<lambda>(decode, parse, db, format, s). remaining db (fst s))")
  show "wf (measure (\<lambda>(decode, parse, db, format, s). remaining db (fst s)))" by simp
next
  fix decode :: "byte list \<Rightarrow> string \<Rightarrow> string" and parse :: "byte list \<Rightarrow> 'm option"
    and db format and s :: "cursors \<times> 'm accum" and x2 x s' stop
  assume "iteration decode parse db format s = Inr x2" "(s', stop) = x2"
  then have "iteration decode parse db format (fst s, snd s) = Inr ((fst s', snd s'), stop)"
    by simp
  then have "remaining db (fst s') < remaining db (fst s)"
    by (rule iteration_decreases)
  then show "((decode, parse, db, format, s'), (decode, parse, db, format, s))
      \<in> measure (\<lambda>(decode, parse, db, format, s). remaining db (fst s))"
    by simp
qed

declare loop.simps [simp del]

definition initialCursors :: "store \<Rightarrow> cursors" where
  "initialCursors db =
     \<lparr>clientBlocksIndex = 0, serverBlocksIndex = 0,
      clientDocumentIndex = 0, serverDocumentIndex = 0,
      clientStream = getConnectionStream db True 0,
      serverStream = getConnectionStream db False 0\<rparr>"

definition initialAccum :: "'m accum" where
  "initialAccum =
     \<lparr>clientIndex = 0, serverIndex = 0, globalIndex = 0, heap = [], payloads = [],
      payloadsBuffer = [], contentChunkBuffer = [], lastClient = False, lastServer = False\<rparr>"

text \<open>\<^verbatim>\<open>if format.Limit <= 0 { format.Limit = DefaultQueryFormatLimit }\<close>\<close>

definition defaultLimit :: "QueryFormat \<Rightarrow> QueryFormat" where
  "defaultLimit format =
     (if Limit format \<le> 0 then format\<lparr>Limit := DefaultQueryFormatLimit\<rparr> else format)"

text \<open>
  \<^verbatim>\<open>GetConnectionPayload\<close>: first with the local variables it ends with, then with
  the value it returns, the Payloads that \<^verbatim>\<open>payloads\<close> points to.
\<close>

definition GetConnectionPayload_run ::
  "(byte list \<Rightarrow> string \<Rightarrow> string) \<Rightarrow> (byte list \<Rightarrow> 'm option) \<Rightarrow> store \<Rightarrow> QueryFormat
     \<Rightarrow> panic + (cursors \<times> 'm accum)" where
  "GetConnectionPayload_run decode parse db format =
     loop decode parse db (defaultLimit format) (initialCursors db, initialAccum)"

definition returned :: "panic + (cursors \<times> 'm accum) \<Rightarrow> panic + 'm Payload list" where
  "returned r = (case r of Inl e \<Rightarrow> Inl e
                 | Inr (cur, acc) \<Rightarrow> Inr (map (\<lambda>p. heap acc ! p) (payloads acc)))"

definition GetConnectionPayload ::
  "(byte list \<Rightarrow> string \<Rightarrow> string) \<Rightarrow> (byte list \<Rightarrow> 'm option) \<Rightarrow> store \<Rightarrow> QueryFormat
     \<Rightarrow> panic + 'm Payload list" where
  "GetConnectionPayload decode parse db format =
     returned (GetConnectionPayload_run decode parse db format)"

text \<open>
  The whole effect of one iteration on the output variables, for the block \<open>b\<close> it
  emits: the branch, then the rest of the body.
\<close>

definition account ::
  "(byte list \<Rightarrow> string \<Rightarrow> string) \<Rightarrow> (byte list \<Rightarrow> 'm option) \<Rightarrow> QueryFormat \<Rightarrow> bool \<Rightarrow> block
     \<Rightarrow> bool \<Rightarrow> 'm accum \<Rightarrow> 'm accum \<times> bool" where
  "account decode parse format fromClient b isLast acc =
     (let (payload, sideChanged, acc1) =
            (if fromClient then emitClient decode format b acc
             else emitServer decode format b acc)
      in collect parse format payload (b_content b) sideChanged isLast acc1)"

section \<open>The persisted streams as sequences of blocks\<close>

text \<open>
  The data model of the specification: in a stream document the three block arrays
  have one entry for each block, there is at least one block, \<^verbatim>\<open>blocks_indexes\<close> is
  strictly increasing from an offset that is not negative, and the last block starts
  inside the payload. A document in the store has an ID that is not zero.
\<close>

definition wf_stream :: "ConnectionStream \<Rightarrow> bool" where
  "wf_stream d =
     (ID d \<noteq> 0 \<and> BlocksIndexes d \<noteq> [] \<and>
      length (BlocksTimestamps d) = length (BlocksIndexes d) \<and>
      length (BlocksLoss d) = length (BlocksIndexes d) \<and>
      sorted_wrt (<) (BlocksIndexes d) \<and>
      0 \<le> hd (BlocksIndexes d) \<and>
      last (BlocksIndexes d) < int (length (Payload d)))"

definition wf_store :: "store \<Rightarrow> bool" where
  "wf_store db = (list_all wf_stream (clientDocs db) \<and> list_all wf_stream (serverDocs db))"

text \<open>
  Block \<open>i\<close> of a document: it starts at \<^verbatim>\<open>blocks_indexes[i]\<close> and ends where the next
  block starts, the last one at the end of the payload.
\<close>

definition blockEnd :: "ConnectionStream \<Rightarrow> nat \<Rightarrow> int" where
  "blockEnd d i =
     (if i + 1 < length (BlocksIndexes d) then BlocksIndexes d ! (i + 1)
      else int (length (Payload d)))"

definition blockAt :: "ConnectionStream \<Rightarrow> nat \<Rightarrow> block" where
  "blockAt d i =
     \<lparr>b_start = BlocksIndexes d ! i,
      b_size = word_of_int (blockEnd d i - BlocksIndexes d ! i),
      b_content = take (nat (blockEnd d i - BlocksIndexes d ! i))
                    (drop (nat (BlocksIndexes d ! i)) (Payload d)),
      b_timestamp = BlocksTimestamps d ! i,
      b_loss = BlocksLoss d ! i,
      b_matches = PatternMatches d\<rparr>"

definition blocksOf :: "ConnectionStream \<Rightarrow> block list" where
  "blocksOf d = map (blockAt d) [0..<length (BlocksIndexes d)]"

text \<open>The blocks of one side, over its documents in the order of \<^verbatim>\<open>document_index\<close>.\<close>

definition sideBlocks :: "ConnectionStream list \<Rightarrow> block list" where
  "sideBlocks docs = concat (map blocksOf docs)"

text \<open>
  The merge of the specification: at each step the block with the earlier timestamp,
  the client's on a tie, and the rest of one side when the other has no block left.
  The flag is true for a client block.
\<close>

fun mergeBlocks :: "block list \<Rightarrow> block list \<Rightarrow> (bool \<times> block) list" where
  "mergeBlocks [] [] = []"
| "mergeBlocks (c # cs) [] = (True, c) # mergeBlocks cs []"
| "mergeBlocks [] (s # ss) = (False, s) # mergeBlocks [] ss"
| "mergeBlocks (c # cs) (s # ss) =
     (if b_timestamp c \<le> b_timestamp s then (True, c) # mergeBlocks cs (s # ss)
      else (False, s) # mergeBlocks (c # cs) ss)"

definition merged :: "store \<Rightarrow> (bool \<times> block) list" where
  "merged db = mergeBlocks (sideBlocks (clientDocs db)) (sideBlocks (serverDocs db))"

text \<open>
  The output variables after the blocks of a list have been emitted one after the
  other, up to the first that makes the function return.
\<close>

fun accountAll ::
  "(byte list \<Rightarrow> string \<Rightarrow> string) \<Rightarrow> (byte list \<Rightarrow> 'm option) \<Rightarrow> QueryFormat
     \<Rightarrow> (bool \<times> block) list \<Rightarrow> 'm accum \<Rightarrow> 'm accum" where
  "accountAll decode parse format [] acc = acc"
| "accountAll decode parse format ((fromClient, b) # rest) acc =
     (case account decode parse format fromClient b (rest = []) acc of
        (acc', stop) \<Rightarrow> if stop then acc' else accountAll decode parse format rest acc')"

text \<open>
  The blocks ahead of a cursor, and the cursor being in step with the store: it holds
  the document of its index, and stands on a block unless the side is exhausted.
\<close>

definition ahead :: "ConnectionStream list \<Rightarrow> ConnectionStream \<Rightarrow> nat \<Rightarrow> nat \<Rightarrow> block list" where
  "ahead docs stream blocksIndex documentIndex =
     drop blocksIndex (blocksOf stream) @ sideBlocks (drop (Suc documentIndex) docs)"

definition cursor_ok :: "ConnectionStream list \<Rightarrow> ConnectionStream \<Rightarrow> nat \<Rightarrow> nat \<Rightarrow> bool" where
  "cursor_ok docs stream blocksIndex documentIndex =
     (if documentIndex < length docs
      then stream = docs ! documentIndex \<and> blocksIndex < length (BlocksIndexes stream)
      else stream = zeroStream)"

definition clientAhead :: "store \<Rightarrow> cursors \<Rightarrow> block list" where
  "clientAhead db cur =
     ahead (clientDocs db) (clientStream cur) (clientBlocksIndex cur) (clientDocumentIndex cur)"

definition serverAhead :: "store \<Rightarrow> cursors \<Rightarrow> block list" where
  "serverAhead db cur =
     ahead (serverDocs db) (serverStream cur) (serverBlocksIndex cur) (serverDocumentIndex cur)"

definition cursors_ok :: "store \<Rightarrow> cursors \<Rightarrow> bool" where
  "cursors_ok db cur =
     (cursor_ok (clientDocs db) (clientStream cur) (clientBlocksIndex cur) (clientDocumentIndex cur) \<and>
      cursor_ok (serverDocs db) (serverStream cur) (serverBlocksIndex cur) (serverDocumentIndex cur))"

section \<open>What the reader computes, block by block\<close>

text \<open>
  The Payload a branch creates for a block, without its regex matches.
\<close>

definition blockPayload ::
  "(byte list \<Rightarrow> string \<Rightarrow> string) \<Rightarrow> QueryFormat \<Rightarrow> bool \<times> block \<Rightarrow> 'm Payload" where
  "blockPayload decode format x =
     \<lparr>FromClient = fst x, Content = decode (b_content (snd x)) (Format format),
      Metadata = None, IsMetadataContinuation = False,
      Index = b_start (snd x), Timestamp = b_timestamp (snd x),
      IsRetransmitted = b_loss (snd x), RegexMatches = []\<rparr>"

text \<open>
  A Payload without what later writes and the pattern matches add to it.
\<close>

definition bare :: "'m Payload \<Rightarrow> 'm Payload" where
  "bare p = p\<lparr>Metadata := None, IsMetadataContinuation := False, RegexMatches := []\<rparr>"

text \<open>
  The blocks of a list the loop reaches when it starts with \<^verbatim>\<open>globalIndex = g\<close>: all up to
  and including the first whose end makes \<^verbatim>\<open>globalIndex\<close> exceed \<open>bound\<close>.
\<close>

fun processed :: "uint64 \<Rightarrow> uint64 \<Rightarrow> (bool \<times> block) list \<Rightarrow> (bool \<times> block) list" where
  "processed bound g [] = []"
| "processed bound g (x # xs) =
     x # (if g + b_size (snd x) > bound then []
          else processed bound (g + b_size (snd x)) xs)"

text \<open>
  The value of \<^verbatim>\<open>globalIndex\<close> after each block of a list, in the arithmetic of \<^verbatim>\<open>uint64\<close>.
\<close>

fun endOffsets :: "uint64 \<Rightarrow> (bool \<times> block) list \<Rightarrow> uint64 list" where
  "endOffsets g [] = []"
| "endOffsets g (x # xs) = (g + b_size (snd x)) # endOffsets (g + b_size (snd x)) xs"

text \<open>
  The entries of a list that has one entry for each block of a walk starting with
  \<^verbatim>\<open>globalIndex = g\<close>, for the blocks whose Payload is appended to the result: those
  that end after \<open>skip\<close> (\<^verbatim>\<open>if globalIndex > format.Skip\<close>).
\<close>

definition kept :: "uint64 \<Rightarrow> uint64 \<Rightarrow> (bool \<times> block) list \<Rightarrow> 'a list \<Rightarrow> 'a list" where
  "kept skip g T xs = map snd (filter (\<lambda>ex. skip < fst ex) (zip (endOffsets g T) xs))"

text \<open>
  Pagination as the specification words it, over blocks paired with their end offsets:
  a block that ends at or before \<open>skip\<close> is omitted, every later block is emitted, and
  the first block whose end exceeds \<open>skip + limit\<close> is emitted and is the last. Here
  \<open>skip + limit\<close> is the sum of the two numbers.
\<close>

fun paginate_spec :: "uint64 \<Rightarrow> uint64 \<Rightarrow> (uint64 \<times> 'a) list \<Rightarrow> 'a list" where
  "paginate_spec skip limit [] = []"
| "paginate_spec skip limit ((e, x) # rest) =
     (if e \<le> skip then paginate_spec skip limit rest
      else if unat skip + unat limit < unat e then [x]
      else x # paginate_spec skip limit rest)"

text \<open>
  The regex matches of the Payloads of a list of blocks, with the running side indexes.
\<close>

fun regexOf :: "uint64 \<Rightarrow> uint64 \<Rightarrow> (bool \<times> block) list \<Rightarrow> RegexSlice list list" where
  "regexOf ci si [] = []"
| "regexOf ci si (x # xs) =
     (if fst x
      then findMatchesBetween (b_matches (snd x)) ci (ci + b_size (snd x)) #
           regexOf (ci + b_size (snd x)) si xs
      else findMatchesBetween (b_matches (snd x)) si (si + b_size (snd x)) #
           regexOf ci (si + b_size (snd x)) xs)"

text \<open>
  The maximal runs of consecutive blocks of the same side.
\<close>

fun runs :: "(bool \<times> 'a) list \<Rightarrow> (bool \<times> 'a) list list" where
  "runs [] = []"
| "runs [x] = [[x]]"
| "runs (x # y # zs) =
     (if fst x = fst y
      then (case runs (y # zs) of [] \<Rightarrow> [[x]] | r # rs \<Rightarrow> (x # r) # rs)
      else [x] # runs (y # zs))"

text \<open>
  What \<^verbatim>\<open>updateMetadata\<close> writes to the Payloads of a run: the metadata parsed from the
  bytes of the whole run on every Payload, and the continuation flag on all but the first.
\<close>

definition runMeta :: "(byte list \<Rightarrow> 'm option) \<Rightarrow> (bool \<times> block) list \<Rightarrow> ('m option \<times> bool) list" where
  "runMeta parse r =
     (if r = [] then []
      else (parse (concat (map (b_content \<circ> snd) r)), False) #
           replicate (length r - 1) (parse (concat (map (b_content \<circ> snd) r)), True))"

definition annotations :: "(byte list \<Rightarrow> 'm option) \<Rightarrow> (bool \<times> block) list \<Rightarrow> ('m option \<times> bool) list" where
  "annotations parse xs = concat (map (runMeta parse) (runs xs))"

text \<open>
  The two fields \<^verbatim>\<open>updateMetadata\<close> writes.
\<close>

definition meta :: "'m Payload \<Rightarrow> 'm option \<times> bool" where
  "meta p = (Metadata p, IsMetadataContinuation p)"

text \<open>
  The run that is still open: its Payloads are the last ones allocated, the buffer
  points to them and the chunk buffer holds their bytes.
\<close>

definition pending :: "'m accum \<Rightarrow> (bool \<times> block) list \<Rightarrow> bool" where
  "pending acc pb =
     (length pb \<le> length (heap acc) \<and>
      payloadsBuffer acc = [length (heap acc) - length pb..<length (heap acc)] \<and>
      contentChunkBuffer acc = concat (map (b_content \<circ> snd) pb) \<and>
      (\<forall>x\<in>set pb. fst x = lastClient acc) \<and>
      lastServer acc = (pb \<noteq> [] \<and> \<not> lastClient acc) \<and>
      (lastClient acc \<longrightarrow> pb \<noteq> []))"

text \<open>
  The blocks a call reaches: the merged blocks of the connection up to and including
  the first whose end makes \<^verbatim>\<open>globalIndex\<close> exceed \<^verbatim>\<open>format.Skip + format.Limit\<close>.
\<close>

definition traversal :: "store \<Rightarrow> QueryFormat \<Rightarrow> (bool \<times> block) list" where
  "traversal db format =
     processed (Skip (defaultLimit format) + Limit (defaultLimit format)) 0 (merged db)"

section \<open>Two runs over the same documents\<close>




text \<open>The same relation on the blocks of the two stores, and on blocks with their side.\<close>

definition same_block :: "block \<Rightarrow> block \<Rightarrow> bool" where
  "same_block b b' =
     (b_start b = b_start b' \<and> b_size b = b_size b' \<and> b_content b = b_content b' \<and>
      b_timestamp b = b_timestamp b' \<and> b_loss b = b_loss b' \<and>
      mset (b_matches b) = mset (b_matches b'))"

definition same_tagged :: "bool \<times> block \<Rightarrow> bool \<times> block \<Rightarrow> bool" where
  "same_tagged x y = (fst x = fst y \<and> same_block (snd x) (snd y))"

section \<open>Example stores and queries\<close>

text \<open>
  A decoder and a parser to run the reader with: the decoder prints a dot for every
  byte, the parser recognises every chunk that is not empty and reports its length.
\<close>

definition ex_decode :: "byte list \<Rightarrow> string \<Rightarrow> string" where
  "ex_decode bs f = replicate (length bs) CHR ''.''"

definition ex_parse :: "byte list \<Rightarrow> nat option" where
  "ex_parse bs = (if bs = [] then None else Some (length bs))"

definition ex_format :: QueryFormat where
  "ex_format = \<lparr>Format = ''default'', Skip = 0, Limit = 0\<rparr>"

definition ex_late_db :: store where
  "ex_late_db =
     \<lparr>clientDocs = [\<lparr>ID = 1, Payload = [1, 2], BlocksIndexes = [0, 1],
                      BlocksTimestamps = [10, 1], BlocksLoss = [False, False],
                      PatternMatches = []\<rparr>],
      serverDocs = [\<lparr>ID = 2, Payload = [3], BlocksIndexes = [0],
                      BlocksTimestamps = [1], BlocksLoss = [False],
                      PatternMatches = []\<rparr>]\<rparr>"

definition ex_tie_db :: store where
  "ex_tie_db =
     \<lparr>clientDocs = [\<lparr>ID = 1, Payload = [1, 2], BlocksIndexes = [0, 1],
                      BlocksTimestamps = [5, 7], BlocksLoss = [False, False],
                      PatternMatches = []\<rparr>],
      serverDocs = [\<lparr>ID = 2, Payload = [3], BlocksIndexes = [0],
                      BlocksTimestamps = [5], BlocksLoss = [False],
                      PatternMatches = []\<rparr>]\<rparr>"

text \<open>
  A client side of two documents with one block each, a client side of one document
  with two blocks, and a client side with three blocks that end at 3, 7 and 11, queried
  with a skip of 5 and a limit of \<open>2\<^sup>6\<^sup>4 - 3\<close>.
\<close>

definition ex_two_docs_db :: store where
  "ex_two_docs_db =
     \<lparr>clientDocs = [\<lparr>ID = 1, Payload = [1, 2], BlocksIndexes = [0],
                      BlocksTimestamps = [1], BlocksLoss = [False], PatternMatches = []\<rparr>,
                    \<lparr>ID = 2, Payload = [3, 4], BlocksIndexes = [0],
                      BlocksTimestamps = [2], BlocksLoss = [False], PatternMatches = []\<rparr>],
      serverDocs = []\<rparr>"

definition ex_run_db :: store where
  "ex_run_db =
     \<lparr>clientDocs = [\<lparr>ID = 1, Payload = [1, 2, 3], BlocksIndexes = [0, 2],
                      BlocksTimestamps = [1, 2], BlocksLoss = [False, False],
                      PatternMatches = []\<rparr>],
      serverDocs = []\<rparr>"

definition ex_wrap_db :: store where
  "ex_wrap_db =
     \<lparr>clientDocs = [\<lparr>ID = 1, Payload = [1, 2, 3, 4, 5, 6, 7, 8, 9, 10, 11],
                      BlocksIndexes = [0, 3, 7], BlocksTimestamps = [1, 2, 3],
                      BlocksLoss = [False, False, False], PatternMatches = []\<rparr>],
      serverDocs = []\<rparr>"

definition ex_wrap_format :: QueryFormat where
  "ex_wrap_format = \<lparr>Format = ''default'', Skip = 5, Limit = 18446744073709551613\<rparr>"



section \<open>The loop follows the merge\<close>

text \<open>
  On a store whose documents satisfy the data model, no read of the loop panics, and the
  cursors stay in step with the store.
\<close>

lemma wf_stream_bounds:
  assumes "wf_stream d" "i < length (BlocksIndexes d)"
  shows "0 \<le> BlocksIndexes d ! i" "BlocksIndexes d ! i \<le> blockEnd d i"
    "blockEnd d i \<le> int (length (Payload d))"
proof -
  let ?xs = "BlocksIndexes d"
  from assms have ne: "?xs \<noteq> []" and sw: "sorted_wrt (<) ?xs"
    and h: "0 \<le> hd ?xs" and l: "last ?xs < int (length (Payload d))"
    by (simp_all add: wf_stream_def)
  have mono: "\<And>j k. j < k \<Longrightarrow> k < length ?xs \<Longrightarrow> ?xs ! j < ?xs ! k"
    using sw by (simp add: sorted_wrt_iff_nth_less)
  have "?xs ! 0 \<le> ?xs ! i"
    using mono [of 0 i] assms(2) by (cases i) auto
  with h ne show "0 \<le> ?xs ! i" by (simp add: hd_conv_nth)
  have le_last: "\<And>k. k < length ?xs \<Longrightarrow> ?xs ! k \<le> last ?xs"
  proof -
    fix k assume k: "k < length ?xs"
    show "?xs ! k \<le> last ?xs"
    proof (cases "k = length ?xs - 1")
      case True
      then show ?thesis using ne by (simp add: last_conv_nth)
    next
      case False
      with k have "k < length ?xs - 1" by simp
      then have "?xs ! k < ?xs ! (length ?xs - 1)" using mono k by simp
      then show ?thesis using ne by (simp add: last_conv_nth)
    qed
  qed
  show "?xs ! i \<le> blockEnd d i"
    using mono [of i "Suc i"] le_last [OF assms(2)] l by (auto simp: blockEnd_def)
  show "blockEnd d i \<le> int (length (Payload d))"
    using le_last [of "Suc i"] l by (auto simp: blockEnd_def)
qed

lemma readBlock_wf:
  assumes "wf_stream d" "i < length (BlocksIndexes d)"
  shows "readBlock d i = Inr (blockAt d i)"
  using wf_stream_bounds [OF assms] assms
  by (auto simp: readBlock_def go_index_def go_slice_def blockAt_def blockEnd_def wf_stream_def)

lemma blocksOf_zeroStream [simp]: "blocksOf zeroStream = []"
  by (simp add: blocksOf_def zeroStream_def)

lemma length_blocksOf [simp]: "length (blocksOf d) = length (BlocksIndexes d)"
  by (simp add: blocksOf_def)

lemma sideBlocks_drop:
  "sideBlocks (drop n docs) =
   blocksOf (if n < length docs then docs ! n else zeroStream) @ sideBlocks (drop (Suc n) docs)"
proof (cases "n < length docs")
  case True
  then have "drop n docs = docs ! n # drop (Suc n) docs"
    by (simp add: Cons_nth_drop_Suc)
  with True show ?thesis by (simp add: sideBlocks_def)
next
  case False
  then show ?thesis by (simp add: sideBlocks_def)
qed

lemma cursor_ok_wf:
  assumes "list_all wf_stream docs" "cursor_ok docs stream bi di"
    "bi < length (BlocksIndexes stream)"
  shows "wf_stream stream" "di < length docs"
proof -
  show d: "di < length docs"
    using assms(2,3) by (auto simp: cursor_ok_def zeroStream_def split: if_splits)
  with assms show "wf_stream stream"
    by (auto simp: cursor_ok_def list_all_length)
qed

lemma ahead_exhausted:
  assumes "cursor_ok docs stream bi di" "\<not> bi < length (BlocksIndexes stream)"
  shows "ahead docs stream bi di = []"
    and "stream = zeroStream"
    and "(if Suc di < length docs then docs ! Suc di else zeroStream) = zeroStream"
    and "cursor_ok docs zeroStream 0 (Suc di)"
    and "ahead docs zeroStream 0 (Suc di) = []"
  using assms
  by (auto simp: cursor_ok_def ahead_def sideBlocks_def split: if_splits)

lemma ahead_next:
  assumes "list_all wf_stream docs" "cursor_ok docs stream bi di"
    "bi < length (BlocksIndexes stream)"
  shows "ahead docs stream bi di = blockAt stream bi #
           (if Suc bi < length (BlocksIndexes stream) then ahead docs stream (Suc bi) di
            else ahead docs (if Suc di < length docs then docs ! Suc di else zeroStream) 0 (Suc di))"
    and "if Suc bi < length (BlocksIndexes stream) then cursor_ok docs stream (Suc bi) di
         else cursor_ok docs (if Suc di < length docs then docs ! Suc di else zeroStream) 0 (Suc di)"
proof -
  have "drop bi (blocksOf stream) = blockAt stream bi # drop (Suc bi) (blocksOf stream)"
    using assms(3) by (simp add: Cons_nth_drop_Suc [symmetric] blocksOf_def)
  then show "ahead docs stream bi di = blockAt stream bi #
           (if Suc bi < length (BlocksIndexes stream) then ahead docs stream (Suc bi) di
            else ahead docs (if Suc di < length docs then docs ! Suc di else zeroStream) 0 (Suc di))"
    using sideBlocks_drop [of "Suc di" docs] by (simp add: ahead_def)
  have "di < length docs" using assms by (rule cursor_ok_wf)
  moreover have "Suc di < length docs \<Longrightarrow> BlocksIndexes (docs ! Suc di) \<noteq> []"
    using assms(1) by (simp add: list_all_length wf_stream_def)
  ultimately show "if Suc bi < length (BlocksIndexes stream) then cursor_ok docs stream (Suc bi) di
         else cursor_ok docs (if Suc di < length docs then docs ! Suc di else zeroStream) 0 (Suc di)"
    using assms(2) by (auto simp: cursor_ok_def)
qed

lemma cursor_ok_ID:
  assumes "list_all wf_stream docs" "cursor_ok docs stream bi di"
  shows "(ID stream = 0) = (ahead docs stream bi di = [])"
    and "(bi < length (BlocksIndexes stream)) = (ahead docs stream bi di \<noteq> [])"
proof -
  show 2: "(bi < length (BlocksIndexes stream)) = (ahead docs stream bi di \<noteq> [])"
    using ahead_exhausted(1) [OF assms(2)] ahead_next(1) [OF assms] by auto
  show "(ID stream = 0) = (ahead docs stream bi di = [])"
  proof (cases "bi < length (BlocksIndexes stream)")
    case True
    then have "wf_stream stream" using assms cursor_ok_wf by blast
    then show ?thesis using True 2 by (simp add: wf_stream_def)
  next
    case False
    then show ?thesis using ahead_exhausted(1,2) [OF assms(2)] by (simp add: zeroStream_def)
  qed
qed


lemma idle_side:
  assumes "cursor_ok docs stream bi di"
  shows "ahead docs
           (if bi < length (BlocksIndexes stream) then stream
            else if Suc di < length docs then docs ! Suc di else zeroStream)
           (if bi < length (BlocksIndexes stream) then bi else 0)
           (if bi < length (BlocksIndexes stream) then di else Suc di)
         = ahead docs stream bi di"
    and "cursor_ok docs
           (if bi < length (BlocksIndexes stream) then stream
            else if Suc di < length docs then docs ! Suc di else zeroStream)
           (if bi < length (BlocksIndexes stream) then bi else 0)
           (if bi < length (BlocksIndexes stream) then di else Suc di)"
  using ahead_exhausted [OF assms] assms by (auto split: if_splits)

lemma pick_client:
  assumes "wf_store db" "cursors_ok db cur" "hasClientBlocks cur"
  defines "cur1 \<equiv> advanceServer db (advanceClient db (consumeBlock True cur))"
  shows "clientAhead db cur = blockAt (clientStream cur) (clientBlocksIndex cur) # clientAhead db cur1"
    and "serverAhead db cur1 = serverAhead db cur"
    and "cursors_ok db cur1"
proof -
  have c: "cursor_ok (clientDocs db) (clientStream cur) (clientBlocksIndex cur) (clientDocumentIndex cur)"
    and s: "cursor_ok (serverDocs db) (serverStream cur) (serverBlocksIndex cur) (serverDocumentIndex cur)"
    using assms(2) by (simp_all add: cursors_ok_def)
  have w: "list_all wf_stream (clientDocs db)" using assms(1) by (simp add: wf_store_def)
  have h: "clientBlocksIndex cur < length (BlocksIndexes (clientStream cur))"
    using assms(3) by (simp add: hasClientBlocks_def)
  note n = ahead_next [OF w c h]
  note i = idle_side [OF s]
  show "clientAhead db cur = blockAt (clientStream cur) (clientBlocksIndex cur) # clientAhead db cur1"
    using n(1) by (auto simp: cur1_def clientAhead_def advanceServer_def advanceClient_def
        consumeBlock_def hasClientBlocks_def hasServerBlocks_def getConnectionStream_def Let_def
        split: if_splits)
  show "serverAhead db cur1 = serverAhead db cur"
    using i(1) by (auto simp: cur1_def serverAhead_def advanceServer_def advanceClient_def
        consumeBlock_def hasClientBlocks_def hasServerBlocks_def getConnectionStream_def Let_def
        split: if_splits)
  show "cursors_ok db cur1"
    using n(2) i(2) by (auto simp: cur1_def cursors_ok_def advanceServer_def advanceClient_def
        consumeBlock_def hasClientBlocks_def hasServerBlocks_def getConnectionStream_def Let_def
        split: if_splits)
qed

lemma pick_server:
  assumes "wf_store db" "cursors_ok db cur" "hasServerBlocks cur"
  defines "cur1 \<equiv> advanceServer db (advanceClient db (consumeBlock False cur))"
  shows "serverAhead db cur = blockAt (serverStream cur) (serverBlocksIndex cur) # serverAhead db cur1"
    and "clientAhead db cur1 = clientAhead db cur"
    and "cursors_ok db cur1"
proof -
  have c: "cursor_ok (clientDocs db) (clientStream cur) (clientBlocksIndex cur) (clientDocumentIndex cur)"
    and s: "cursor_ok (serverDocs db) (serverStream cur) (serverBlocksIndex cur) (serverDocumentIndex cur)"
    using assms(2) by (simp_all add: cursors_ok_def)
  have w: "list_all wf_stream (serverDocs db)" using assms(1) by (simp add: wf_store_def)
  have h: "serverBlocksIndex cur < length (BlocksIndexes (serverStream cur))"
    using assms(3) by (simp add: hasServerBlocks_def)
  note n = ahead_next [OF w s h]
  note i = idle_side [OF c]
  show "serverAhead db cur = blockAt (serverStream cur) (serverBlocksIndex cur) # serverAhead db cur1"
    using n(1) by (auto simp: cur1_def serverAhead_def advanceServer_def advanceClient_def
        consumeBlock_def hasClientBlocks_def hasServerBlocks_def getConnectionStream_def Let_def
        split: if_splits)
  show "clientAhead db cur1 = clientAhead db cur"
    using i(1) by (auto simp: cur1_def clientAhead_def advanceServer_def advanceClient_def
        consumeBlock_def hasClientBlocks_def hasServerBlocks_def getConnectionStream_def Let_def
        split: if_splits)
  show "cursors_ok db cur1"
    using n(2) i(2) by (auto simp: cur1_def cursors_ok_def advanceServer_def advanceClient_def
        consumeBlock_def hasClientBlocks_def hasServerBlocks_def getConnectionStream_def Let_def
        split: if_splits)
qed


lemma mergeBlocks_Nil_iff [simp]: "(mergeBlocks C S = []) = (C = [] \<and> S = [])"
  by (induction C S rule: mergeBlocks.induct) auto

lemma bothZero_iff:
  assumes "wf_store db" "cursors_ok db cur"
  shows "bothZero cur = (mergeBlocks (clientAhead db cur) (serverAhead db cur) = [])"
  using assms cursor_ok_ID(1) [of "clientDocs db" "clientStream cur" "clientBlocksIndex cur" "clientDocumentIndex cur"]
    cursor_ok_ID(1) [of "serverDocs db" "serverStream cur" "serverBlocksIndex cur" "serverDocumentIndex cur"]
  by (simp add: bothZero_def wf_store_def cursors_ok_def clientAhead_def serverAhead_def)

lemma has_blocks_iff:
  assumes "wf_store db" "cursors_ok db cur"
  shows "hasClientBlocks cur = (clientAhead db cur \<noteq> [])"
    and "hasServerBlocks cur = (serverAhead db cur \<noteq> [])"
  using assms cursor_ok_ID(2) [of "clientDocs db" "clientStream cur" "clientBlocksIndex cur" "clientDocumentIndex cur"]
    cursor_ok_ID(2) [of "serverDocs db" "serverStream cur" "serverBlocksIndex cur" "serverDocumentIndex cur"]
  by (simp_all add: hasClientBlocks_def hasServerBlocks_def wf_store_def cursors_ok_def
      clientAhead_def serverAhead_def)

lemma current_block:
  assumes "wf_store db" "cursors_ok db cur"
  shows "hasClientBlocks cur \<Longrightarrow>
           readBlock (clientStream cur) (clientBlocksIndex cur)
             = Inr (blockAt (clientStream cur) (clientBlocksIndex cur)) \<and>
           go_index (BlocksTimestamps (clientStream cur)) (clientBlocksIndex cur)
             = Inr (b_timestamp (blockAt (clientStream cur) (clientBlocksIndex cur))) \<and>
           hd (clientAhead db cur) = blockAt (clientStream cur) (clientBlocksIndex cur)"
    and "hasServerBlocks cur \<Longrightarrow>
           readBlock (serverStream cur) (serverBlocksIndex cur)
             = Inr (blockAt (serverStream cur) (serverBlocksIndex cur)) \<and>
           go_index (BlocksTimestamps (serverStream cur)) (serverBlocksIndex cur)
             = Inr (b_timestamp (blockAt (serverStream cur) (serverBlocksIndex cur))) \<and>
           hd (serverAhead db cur) = blockAt (serverStream cur) (serverBlocksIndex cur)"
proof -
  assume h: "hasClientBlocks cur"
  have c: "cursor_ok (clientDocs db) (clientStream cur) (clientBlocksIndex cur) (clientDocumentIndex cur)"
    and w: "list_all wf_stream (clientDocs db)"
    using assms by (simp_all add: cursors_ok_def wf_store_def)
  have i: "clientBlocksIndex cur < length (BlocksIndexes (clientStream cur))"
    using h by (simp add: hasClientBlocks_def)
  have ws: "wf_stream (clientStream cur)" using w c i by (rule cursor_ok_wf)
  show "readBlock (clientStream cur) (clientBlocksIndex cur)
             = Inr (blockAt (clientStream cur) (clientBlocksIndex cur)) \<and>
           go_index (BlocksTimestamps (clientStream cur)) (clientBlocksIndex cur)
             = Inr (b_timestamp (blockAt (clientStream cur) (clientBlocksIndex cur))) \<and>
           hd (clientAhead db cur) = blockAt (clientStream cur) (clientBlocksIndex cur)"
    using readBlock_wf [OF ws i] ahead_next(1) [OF w c i] ws i
    by (simp add: go_index_def blockAt_def wf_stream_def clientAhead_def)
next
  assume h: "hasServerBlocks cur"
  have c: "cursor_ok (serverDocs db) (serverStream cur) (serverBlocksIndex cur) (serverDocumentIndex cur)"
    and w: "list_all wf_stream (serverDocs db)"
    using assms by (simp_all add: cursors_ok_def wf_store_def)
  have i: "serverBlocksIndex cur < length (BlocksIndexes (serverStream cur))"
    using h by (simp add: hasServerBlocks_def)
  have ws: "wf_stream (serverStream cur)" using w c i by (rule cursor_ok_wf)
  show "readBlock (serverStream cur) (serverBlocksIndex cur)
             = Inr (blockAt (serverStream cur) (serverBlocksIndex cur)) \<and>
           go_index (BlocksTimestamps (serverStream cur)) (serverBlocksIndex cur)
             = Inr (b_timestamp (blockAt (serverStream cur) (serverBlocksIndex cur))) \<and>
           hd (serverAhead db cur) = blockAt (serverStream cur) (serverBlocksIndex cur)"
    using readBlock_wf [OF ws i] ahead_next(1) [OF w c i] ws i
    by (simp add: go_index_def blockAt_def wf_stream_def serverAhead_def)
qed

lemma iteration_step:
  assumes wf: "wf_store db" and ok: "cursors_ok db cur" and nz: "\<not> bothZero cur"
  shows "\<exists>fc b rest cur1.
      mergeBlocks (clientAhead db cur) (serverAhead db cur) = (fc, b) # rest \<and>
      iteration decode parse db format (cur, acc) =
        Inr ((cur1, fst (account decode parse format fc b (rest = []) acc)),
             snd (account decode parse format fc b (rest = []) acc)) \<and>
      cursors_ok db cur1 \<and>
      mergeBlocks (clientAhead db cur1) (serverAhead db cur1) = rest"
proof -
  let ?C = "clientAhead db cur" and ?S = "serverAhead db cur"
  let ?c = "blockAt (clientStream cur) (clientBlocksIndex cur)"
  let ?s = "blockAt (serverStream cur) (serverBlocksIndex cur)"
  note hb = has_blocks_iff [OF wf ok]
  note cb = current_block [OF wf ok]
  from nz have ne: "?C \<noteq> [] \<or> ?S \<noteq> []"
    using bothZero_iff [OF wf ok] by simp
  show ?thesis
  proof (cases "hasClientBlocks cur \<and> (\<not> hasServerBlocks cur \<or> b_timestamp ?c \<le> b_timestamp ?s)")
    case True
    then have h: "hasClientBlocks cur" by simp
    let ?cur1 = "advanceServer db (advanceClient db (consumeBlock True cur))"
    note p = pick_client [OF wf ok h]
    have n: "nextFromClient cur = Inr True"
      using True cb by (auto simp: nextFromClient_def)
    have m: "mergeBlocks ?C ?S = (True, ?c) # mergeBlocks (clientAhead db ?cur1) (serverAhead db ?cur1)"
    proof (cases "?S")
      case Nil
      then show ?thesis using p(1,2) by simp
    next
      case (Cons s ss)
      then have "hasServerBlocks cur" using hb by simp
      with cb(2) Cons have "s = ?s" by simp
      moreover have "b_timestamp ?c \<le> b_timestamp ?s"
        using True \<open>hasServerBlocks cur\<close> by simp
      ultimately show ?thesis using p(1,2) Cons by simp
    qed
    have z: "bothZero ?cur1 = (mergeBlocks (clientAhead db ?cur1) (serverAhead db ?cur1) = [])"
      using wf p(3) by (rule bothZero_iff)
    have "iteration decode parse db format (cur, acc) =
        Inr ((?cur1, fst (account decode parse format True ?c (mergeBlocks (clientAhead db ?cur1) (serverAhead db ?cur1) = []) acc)),
             snd (account decode parse format True ?c (mergeBlocks (clientAhead db ?cur1) (serverAhead db ?cur1) = []) acc))"
      using n cb(1) [OF h] z
      by (simp add: iteration_def account_def split_def Let_def)
    with m p(3) show ?thesis by blast
  next
    case False
    with ne hb have h: "hasServerBlocks cur" by auto
    let ?cur1 = "advanceServer db (advanceClient db (consumeBlock False cur))"
    note p = pick_server [OF wf ok h]
    have n: "nextFromClient cur = Inr False"
      using False h cb by (auto simp: nextFromClient_def)
    have m: "mergeBlocks ?C ?S = (False, ?s) # mergeBlocks (clientAhead db ?cur1) (serverAhead db ?cur1)"
    proof (cases "?C")
      case Nil
      then show ?thesis using p(1,2) by simp
    next
      case (Cons c cs)
      then have hc: "hasClientBlocks cur" using hb by simp
      with cb(1) Cons have "c = ?c" by simp
      moreover have "\<not> b_timestamp ?c \<le> b_timestamp ?s"
        using False hc h by simp
      ultimately show ?thesis using p(1,2) Cons by simp
    qed
    have z: "bothZero ?cur1 = (mergeBlocks (clientAhead db ?cur1) (serverAhead db ?cur1) = [])"
      using wf p(3) by (rule bothZero_iff)
    have "iteration decode parse db format (cur, acc) =
        Inr ((?cur1, fst (account decode parse format False ?s (mergeBlocks (clientAhead db ?cur1) (serverAhead db ?cur1) = []) acc)),
             snd (account decode parse format False ?s (mergeBlocks (clientAhead db ?cur1) (serverAhead db ?cur1) = []) acc))"
      using n cb(2) [OF h] z
      by (simp add: iteration_def account_def split_def Let_def)
    with m p(3) show ?thesis by blast
  qed
qed

lemma loop_accountAll:
  assumes "wf_store db" "cursors_ok db cur"
  shows "\<exists>cur'. loop decode parse db format (cur, acc) =
           Inr (cur', accountAll decode parse format
                        (mergeBlocks (clientAhead db cur) (serverAhead db cur)) acc)"
  using assms(2)
proof (induction "mergeBlocks (clientAhead db cur) (serverAhead db cur)" arbitrary: cur acc)
  case Nil
  have e: "mergeBlocks (clientAhead db cur) (serverAhead db cur) = []"
    using Nil(1) by simp
  then have "bothZero cur" using bothZero_iff [OF assms(1) Nil(2)] by simp
  then show ?case using e by (simp add: loop.simps)
next
  case (Cons x xs)
  then have nz: "\<not> bothZero cur" using bothZero_iff [OF assms(1) Cons(3)] by auto
  from iteration_step [OF assms(1) Cons(3) nz, of decode parse format acc]
  obtain fc b rest cur1 where
    m: "mergeBlocks (clientAhead db cur) (serverAhead db cur) = (fc, b) # rest" and
    i: "iteration decode parse db format (cur, acc) =
        Inr ((cur1, fst (account decode parse format fc b (rest = []) acc)),
             snd (account decode parse format fc b (rest = []) acc))" and
    ok1: "cursors_ok db cur1" and
    m1: "mergeBlocks (clientAhead db cur1) (serverAhead db cur1) = rest"
    by blast
  from m Cons(2) have xs: "xs = rest" by simp
  show ?case
  proof (cases "snd (account decode parse format fc b (rest = []) acc)")
    case True
    then show ?thesis using nz i m
      by (simp add: loop.simps [of _ _ _ _ "(cur, acc)"] split_def)
  next
    case False
    from Cons(1) [OF _ ok1, of "fst (account decode parse format fc b (rest = []) acc)"] xs m1
    obtain cur' where
      "loop decode parse db format (cur1, fst (account decode parse format fc b (rest = []) acc)) =
         Inr (cur', accountAll decode parse format rest
                      (fst (account decode parse format fc b (rest = []) acc)))"
      by auto
    then show ?thesis using nz i m False
      by (simp add: loop.simps [of _ _ _ _ "(cur, acc)"] split_def)
  qed
qed

section \<open>The output variables after a list of blocks\<close>

lemma length_setMetadata [simp]: "length (setMetadata m c ps h) = length h"
  by (induction ps arbitrary: c h) auto

lemma map_update_same:
  assumes "i < length h \<Longrightarrow> f y = f (h ! i)"
  shows "map f (h[i := y]) = map f h"
proof (cases "i < length h")
  case True
  with assms have "(map f h)[i := f y] = map f h"
    by (simp add: list_update_same_conv)
  then show ?thesis by (simp add: map_update)
next
  case False
  then have "length h \<le> i" by arith
  then show ?thesis by (simp add: list_update_beyond)
qed

lemma setMetadata_bare [simp]: "map bare (setMetadata m c ps h) = map bare h"
  by (induction ps arbitrary: c h) (auto simp: map_update_same bare_def)

lemma setMetadata_RegexMatches [simp]:
  "map RegexMatches (setMetadata m c ps h) = map RegexMatches h"
  by (induction ps arbitrary: c h) (auto simp: map_update_same)

lemma account_facts:
  fixes acc :: "'m accum" and decode parse format fc b isLast
  defines "r \<equiv> account decode parse format fc b isLast acc"
  shows "globalIndex (fst r) = globalIndex acc + b_size b"
    and "clientIndex (fst r) = (if fc then clientIndex acc + b_size b else clientIndex acc)"
    and "serverIndex (fst r) = (if fc then serverIndex acc else serverIndex acc + b_size b)"
    and "snd r = (Skip format + Limit format < globalIndex acc + b_size b)"
    and "length (heap (fst r)) = Suc (length (heap acc))"
    and "map bare (heap (fst r)) = map bare (heap acc) @ [blockPayload decode format (fc, b)]"
    and "map RegexMatches (heap (fst r)) = map RegexMatches (heap acc) @
           [findMatchesBetween (b_matches b) (if fc then clientIndex acc else serverIndex acc)
              ((if fc then clientIndex acc else serverIndex acc) + b_size b)]"
    and "payloads (fst r) = payloads acc @
           (if Skip format < globalIndex acc + b_size b then [length (heap acc)] else [])"
  by (simp_all add: r_def account_def collect_def emitClient_def emitServer_def
      updateMetadata_def Let_def bare_def blockPayload_def)

lemma accountAll_bare:
  "map bare (heap (accountAll decode parse format xs acc)) =
   map bare (heap acc) @
   map (blockPayload decode format) (processed (Skip format + Limit format) (globalIndex acc) xs)"
proof (induction xs arbitrary: acc)
  case Nil
  then show ?case by simp
next
  case (Cons x xs)
  obtain fc b where x: "x = (fc, b)" by (cases x)
  show ?case
    using Cons [of "fst (account decode parse format fc b (xs = []) acc)"]
    by (simp add: x split_def account_facts)
qed

lemma accountAll_RegexMatches:
  "map RegexMatches (heap (accountAll decode parse format xs acc)) =
   map RegexMatches (heap acc) @
   regexOf (clientIndex acc) (serverIndex acc)
     (processed (Skip format + Limit format) (globalIndex acc) xs)"
proof (induction xs arbitrary: acc)
  case Nil
  then show ?case by simp
next
  case (Cons x xs)
  obtain fc b where x: "x = (fc, b)" by (cases x)
  show ?case
    using Cons [of "fst (account decode parse format fc b (xs = []) acc)"]
    by (cases fc) (simp_all add: x split_def account_facts)
qed

lemma accountAll_complete:
  "\<not> Skip format + Limit format < globalIndex (accountAll decode parse format xs acc) \<Longrightarrow>
   processed (Skip format + Limit format) (globalIndex acc) xs = xs"
proof (induction xs arbitrary: acc)
  case Nil
  then show ?case by simp
next
  case (Cons x xs)
  obtain fc b where x: "x = (fc, b)" by (cases x)
  show ?case
    using Cons(1) [of "fst (account decode parse format fc b (xs = []) acc)"] Cons(2)
    by (auto simp: x split_def account_facts split: if_splits)
qed

lemma prefix_processed: "prefix (processed bound g xs) xs"
  by (induction xs arbitrary: g) auto

lemma accountAll_payloads_sorted:
  assumes "sorted_wrt (<) (payloads acc)" "\<forall>p\<in>set (payloads acc). p < length (heap acc)"
  shows "sorted_wrt (<) (payloads (accountAll decode parse format xs acc)) \<and>
         (\<forall>p\<in>set (payloads (accountAll decode parse format xs acc)).
            p < length (heap (accountAll decode parse format xs acc)))"
  using assms
proof (induction xs arbitrary: acc)
  case Nil
  then show ?case by simp
next
  case (Cons x xs)
  obtain fc b where x: "x = (fc, b)" by (cases x)
  let ?a = "fst (account decode parse format fc b (xs = []) acc)"
  have s: "sorted_wrt (<) (payloads ?a)" and l: "\<forall>p\<in>set (payloads ?a). p < length (heap ?a)"
    using Cons(2,3) by (auto simp: account_facts sorted_wrt_append)
  show ?case
    using Cons(1) [OF s l] s l by (simp add: x split_def)
qed

lemma subseq_map_nth:
  assumes "sorted_wrt (<) ps" "\<forall>p\<in>set ps. m \<le> p \<and> p < length h"
  shows "subseq (map ((!) h) ps) (drop m h)"
  using assms
proof (induction ps arbitrary: m)
  case Nil
  then show ?case by simp
next
  case (Cons p ps)
  then have p: "m \<le> p" "p < length h" by simp_all
  have "\<forall>q\<in>set ps. Suc p \<le> q \<and> q < length h" using Cons(2,3) by auto
  moreover have "sorted_wrt (<) ps" using Cons(2) by simp
  ultimately have "subseq (map ((!) h) ps) (drop (Suc p) h)" using Cons(1) by blast
  then have "subseq (h ! p # map ((!) h) ps) (h ! p # drop (Suc p) h)" by simp
  then have "subseq (h ! p # map ((!) h) ps) (drop p h)"
    using p(2) by (simp add: Cons_nth_drop_Suc)
  then have "subseq (h ! p # map ((!) h) ps) (take (p - m) (drop m h) @ drop p h)"
    by (simp add: list_emb_append2)
  moreover have "drop m h = take (p - m) (drop m h) @ drop p h"
    using p(1) append_take_drop_id [of "p - m" "drop m h"] by simp
  ultimately show ?case by simp
qed

lemma accountAll_payloads:
  assumes "unat (Skip format) + unat (Limit format) < 2 ^ 64"
  shows "payloads (accountAll decode parse format xs acc) =
         payloads acc @
         paginate_spec (Skip format) (Limit format)
           (zip (endOffsets (globalIndex acc) xs) [length (heap acc)..<length (heap acc) + length xs])"
proof (induction xs arbitrary: acc)
  case Nil
  then show ?case by simp
next
  case (Cons x xs)
  obtain fc b where x: "x = (fc, b)" by (cases x)
  have u: "unat (Skip format + Limit format) = unat (Skip format) + unat (Limit format)"
    using assms unat_add_lem [of "Skip format" "Limit format"] by simp
  have lt: "\<And>e. (Skip format + Limit format < e) = (unat (Skip format) + unat (Limit format) < unat e)"
    by (simp add: word_less_nat_alt u)
  have le: "\<And>e. Skip format + Limit format < e \<Longrightarrow> Skip format < e"
    by (simp add: word_less_nat_alt u)
  let ?a = "fst (account decode parse format fc b (xs = []) acc)"
  let ?g = "globalIndex acc + b_size b" and ?n = "length (heap acc)"
  have IH: "payloads (accountAll decode parse format xs ?a) =
      payloads ?a @ paginate_spec (Skip format) (Limit format)
        (zip (endOffsets ?g xs) [Suc ?n..<Suc ?n + length xs])"
    using Cons [of ?a] by (simp add: account_facts)
  have z: "zip (endOffsets (globalIndex acc) ((fc, b) # xs)) [?n..<?n + length ((fc, b) # xs)] =
      (?g, ?n) # zip (endOffsets ?g xs) [Suc ?n..<Suc ?n + length xs]"
    by (simp add: upt_conv_Cons del: upt_Suc)
  have c: "?g \<le> Skip format \<Longrightarrow> unat ?g \<le> unat (Skip format)"
    by (simp add: word_le_nat_alt)
  show ?case
    unfolding x z using IH c
    by (auto simp: split_def account_facts lt not_less simp del: upt_Suc)
qed

lemma runs_same:
  "xs \<noteq> [] \<Longrightarrow> \<forall>x\<in>set xs. fst x = s \<Longrightarrow> runs xs = [xs]"
  by (induction xs rule: runs.induct) auto

lemma runs_change:
  "xs \<noteq> [] \<Longrightarrow> \<forall>x\<in>set xs. fst x = s \<Longrightarrow> fst y \<noteq> s \<Longrightarrow>
   runs (xs @ y # ys) = xs # runs (y # ys)"
  by (induction xs rule: runs.induct) auto

lemma annotations_same:
  "\<forall>x\<in>set xs. fst x = s \<Longrightarrow> annotations parse xs = runMeta parse xs"
  using runs_same [of xs s] by (cases "xs = []") (simp_all add: annotations_def runMeta_def)

lemma annotations_change:
  "xs \<noteq> [] \<Longrightarrow> \<forall>x\<in>set xs. fst x = s \<Longrightarrow> fst y \<noteq> s \<Longrightarrow>
   annotations parse (xs @ y # ys) = runMeta parse xs @ annotations parse (y # ys)"
  using runs_change [of xs s y ys] by (simp add: annotations_def)

lemma length_runMeta [simp]: "length (runMeta parse r) = length r"
  by (cases r) (simp_all add: runMeta_def)

lemma take_length_append:
  "length xs = n \<Longrightarrow> take n (xs @ ys) = xs"
  by simp

lemma setMetadata_range:
  "n + k \<le> length h \<Longrightarrow>
   map meta (setMetadata m c [n..<n + k] h) =
   map meta (take n h) @ (if k = 0 then [] else (m, c) # replicate (k - 1) (m, True)) @
   map meta (drop (n + k) h)"
proof (induction k arbitrary: n c h)
  case 0
  then show ?case by (simp flip: map_append)
next
  case (Suc k)
  let ?h = "h[n := (h ! n)\<lparr>Metadata := m, IsMetadataContinuation := c\<rparr>]"
  have l: "Suc n + k \<le> length ?h" using Suc(2) by simp
  have u: "[n..<n + Suc k] = n # [Suc n..<Suc n + k]"
    by (simp add: upt_conv_Cons del: upt_Suc)
  have t: "take (Suc n) ?h = take n h @ [(h ! n)\<lparr>Metadata := m, IsMetadataContinuation := c\<rparr>]"
    using Suc(2) by (simp add: take_Suc_conv_app_nth)
  have d: "drop (Suc n + k) ?h = drop (n + Suc k) h" by simp
  have r: "(if k = 0 then [] else (m, True) # replicate (k - 1) (m, True)) = replicate k (m, True)"
    by (cases k) simp_all
  show ?case
    unfolding u setMetadata.simps Suc(1) [OF l] t d r
    by (simp add: meta_def)
qed

lemma collect_fields:
  fixes acc :: "'m accum" and parse format payload content sc isLast
  defines "r \<equiv> fst (collect parse format payload content sc isLast acc)"
    and "flush \<equiv> (isLast \<or> Skip format + Limit format < globalIndex acc)"
  defines "buf \<equiv> (if sc then [payload] else payloadsBuffer acc @ [payload])"
    and "ch \<equiv> (if sc then content else contentChunkBuffer acc @ content)"
  shows "heap r =
           (let h2 = (if sc then setMetadata (parse (contentChunkBuffer acc)) False
                                     (payloadsBuffer acc) (heap acc)
                      else heap acc)
            in if flush then setMetadata (parse ch) False buf h2 else h2)"
    and "payloadsBuffer r = (if flush then [] else buf)"
    and "contentChunkBuffer r = (if flush then [] else ch)"
    and "lastClient r = lastClient acc" and "lastServer r = lastServer acc"
  unfolding r_def flush_def buf_def ch_def
  by (cases sc; cases isLast; cases "Skip format + Limit format < globalIndex acc";
      simp add: collect_def updateMetadata_def Let_def)+

lemma account_buffers:
  fixes acc :: "'m accum" and decode parse format fc b isLast
  defines "r \<equiv> fst (account decode parse format fc b isLast acc)"
    and "n \<equiv> length (heap acc)"
    and "sc \<equiv> (if fc then lastServer acc else lastClient acc)"
    and "flush \<equiv> (isLast \<or> Skip format + Limit format < globalIndex acc + b_size b)"
  defines "buf \<equiv> (if sc then [n] else payloadsBuffer acc @ [n])"
    and "ch \<equiv> (if sc then b_content b else contentChunkBuffer acc @ b_content b)"
  shows "\<exists>new. meta new = (None, False) \<and>
           heap r =
             (let h2 = (if sc then setMetadata (parse (contentChunkBuffer acc)) False
                                     (payloadsBuffer acc) (heap acc @ [new])
                        else heap acc @ [new])
              in if flush then setMetadata (parse ch) False buf h2 else h2)"
    and "payloadsBuffer r = (if flush then [] else buf)"
    and "contentChunkBuffer r = (if flush then [] else ch)"
    and "lastClient r = fc" and "lastServer r = (\<not> fc)"
proof -
  show "payloadsBuffer r = (if flush then [] else buf)"
    and "contentChunkBuffer r = (if flush then [] else ch)"
    and "lastClient r = fc" and "lastServer r = (\<not> fc)"
    unfolding r_def n_def sc_def flush_def buf_def ch_def
    by (cases fc; simp add: account_def emitClient_def emitServer_def collect_fields)+
  show "\<exists>new. meta new = (None, False) \<and>
           heap r =
             (let h2 = (if sc then setMetadata (parse (contentChunkBuffer acc)) False
                                     (payloadsBuffer acc) (heap acc @ [new])
                        else heap acc @ [new])
              in if flush then setMetadata (parse ch) False buf h2 else h2)"
  proof (cases fc)
    case True
    show ?thesis
      unfolding r_def n_def sc_def flush_def buf_def ch_def
      by (rule exI [of _ "\<lparr>FromClient = True, Content = decode (b_content b) (Format format),
               Metadata = None, IsMetadataContinuation = False,
               Index = b_start b, Timestamp = b_timestamp b, IsRetransmitted = b_loss b,
               RegexMatches = findMatchesBetween (b_matches b) (clientIndex acc)
                                (clientIndex acc + b_size b)\<rparr>"])
        (simp add: True account_def emitClient_def collect_fields meta_def Let_def)
  next
    case False
    show ?thesis
      unfolding r_def n_def sc_def flush_def buf_def ch_def
      by (rule exI [of _ "\<lparr>FromClient = False, Content = decode (b_content b) (Format format),
               Metadata = None, IsMetadataContinuation = False,
               Index = b_start b, Timestamp = b_timestamp b, IsRetransmitted = b_loss b,
               RegexMatches = findMatchesBetween (b_matches b) (serverIndex acc)
                                (serverIndex acc + b_size b)\<rparr>"])
        (simp add: False account_def emitServer_def collect_fields meta_def Let_def)
  qed
qed

lemma pending_sideChanged:
  assumes "pending acc pb"
  shows "(if fc then lastServer acc else lastClient acc) = (pb \<noteq> [] \<and> lastClient acc \<noteq> fc)"
  using assms by (auto simp: pending_def)

lemma account_meta_flush:
  fixes acc :: "'m accum"
  assumes p: "pending acc pb"
    and f: "isLast \<or> Skip format + Limit format < globalIndex acc + b_size b"
  shows "map meta (heap (fst (account decode parse format fc b isLast acc))) =
         map meta (take (length (heap acc) - length pb) (heap acc)) @
         annotations parse (pb @ [(fc, b)])"
proof -
  let ?n = "length (heap acc)" and ?k = "length pb"
  let ?a = "?n - ?k"
  let ?sc = "if fc then lastServer acc else lastClient acc"
  from p have k: "?k \<le> ?n" and buf: "payloadsBuffer acc = [?a..<?a + ?k]"
    and ch: "contentChunkBuffer acc = concat (map (b_content \<circ> snd) pb)"
    and side: "\<forall>x\<in>set pb. fst x = lastClient acc"
    by (simp_all add: pending_def)
  from account_buffers(1) [of decode parse format fc b isLast acc] f obtain new :: "'m Payload" where
    m: "meta new = (None, False)" and
    h: "heap (fst (account decode parse format fc b isLast acc)) =
          setMetadata (parse (if ?sc then b_content b else contentChunkBuffer acc @ b_content b)) False
            (if ?sc then [?n] else payloadsBuffer acc @ [?n])
            (if ?sc then setMetadata (parse (contentChunkBuffer acc)) False
                                     (payloadsBuffer acc) (heap acc @ [new])
             else heap acc @ [new])"
    by (auto simp: Let_def)
  show ?thesis
  proof (cases ?sc)
    case True
    then have ne: "pb \<noteq> []" and d: "lastClient acc \<noteq> fc"
      using pending_sideChanged [OF p, of fc] by simp_all
    let ?h2 = "setMetadata (parse (contentChunkBuffer acc)) False [?a..<?a + ?k] (heap acc @ [new])"
    have 1: "map meta ?h2 = map meta (take ?a (heap acc)) @ runMeta parse pb @ [(None, False)]"
      using setMetadata_range [of ?a ?k "heap acc @ [new]" "parse (contentChunkBuffer acc)" False]
        k ne m by (simp add: runMeta_def ch)
    have hh: "heap (fst (account decode parse format fc b isLast acc)) =
        setMetadata (parse (b_content b)) False [?n..<?n + 1] ?h2"
      using True h buf by simp
    have A: "map meta (setMetadata (parse (b_content b)) False [?n..<?n + 1] ?h2) =
          map meta (take ?n ?h2) @ [(parse (b_content b), False)]"
      using setMetadata_range [of ?n 1 ?h2 "parse (b_content b)" False] by simp
    have B: "map meta (take ?n ?h2) = map meta (take ?a (heap acc)) @ runMeta parse pb"
    proof -
      have "length (map meta (take ?a (heap acc)) @ runMeta parse pb) = ?n" using k by simp
      then have "take ?n ((map meta (take ?a (heap acc)) @ runMeta parse pb) @ [(None, False)]) =
          map meta (take ?a (heap acc)) @ runMeta parse pb"
        by (rule take_length_append)
      then show ?thesis using arg_cong [OF 1, of "take ?n"] by (simp add: take_map)
    qed
    have C: "annotations parse (pb @ [(fc, b)]) = runMeta parse pb @ runMeta parse [(fc, b)]"
      using annotations_change [OF ne side, of "(fc, b)" parse "[]"] d
        annotations_same [of "[(fc, b)]" fc parse] by simp
    have rm1: "runMeta parse [(fc, b)] = [(parse (b_content b), False)]"
      by (simp add: runMeta_def)
    show ?thesis unfolding hh A B C rm1 by simp
  next
    case False
    then have s: "\<forall>x\<in>set (pb @ [(fc, b)]). fst x = fc"
      using pending_sideChanged [OF p, of fc] side by auto
    have u: "[?a..<?a + ?k] @ [?n] = [?a..<?a + Suc ?k]" using k by simp
    have "map meta (setMetadata (parse (contentChunkBuffer acc @ b_content b)) False
             [?a..<?a + Suc ?k] (heap acc @ [new])) =
          map meta (take ?a (heap acc)) @ runMeta parse (pb @ [(fc, b)])"
      using setMetadata_range [of ?a "Suc ?k" "heap acc @ [new]"
          "parse (contentChunkBuffer acc @ b_content b)" False] k
      by (simp add: runMeta_def ch)
    then show ?thesis
      using False h buf u annotations_same [OF s, of parse] by simp
  qed
qed

lemma account_meta_keep:
  fixes acc :: "'m accum" and decode parse format fc b isLast
  assumes p: "pending acc pb"
    and f: "\<not> isLast" "\<not> Skip format + Limit format < globalIndex acc + b_size b"
  defines "r \<equiv> fst (account decode parse format fc b isLast acc)"
  shows "\<exists>pb'. pending r pb' \<and>
           (\<forall>ys. map meta (take (length (heap r) - length pb') (heap r)) @
                    annotations parse (pb' @ ys) =
                  map meta (take (length (heap acc) - length pb) (heap acc)) @
                    annotations parse (pb @ (fc, b) # ys))"
proof -
  let ?n = "length (heap acc)" and ?k = "length pb"
  let ?a = "?n - ?k"
  let ?sc = "if fc then lastServer acc else lastClient acc"
  from p have k: "?k \<le> ?n" and buf: "payloadsBuffer acc = [?a..<?a + ?k]"
    and ch: "contentChunkBuffer acc = concat (map (b_content \<circ> snd) pb)"
    and side: "\<forall>x\<in>set pb. fst x = lastClient acc"
    by (simp_all add: pending_def)
  note ab = account_buffers [of decode parse format fc b isLast acc]
  from ab(1) f obtain new :: "'m Payload" where
    m: "meta new = (None, False)" and
    h: "heap r =
          (if ?sc then setMetadata (parse (contentChunkBuffer acc)) False
                                     (payloadsBuffer acc) (heap acc @ [new])
             else heap acc @ [new])"
    by (auto simp: Let_def r_def)
  have b: "payloadsBuffer r = (if ?sc then [?n] else payloadsBuffer acc @ [?n])"
    and c: "contentChunkBuffer r = (if ?sc then b_content b else contentChunkBuffer acc @ b_content b)"
    and lc: "lastClient r = fc" and ls: "lastServer r = (\<not> fc)"
    using ab(2-5) f by (simp_all add: r_def)
  have l: "length (heap r) = Suc ?n" using h by simp
  show ?thesis
  proof (cases ?sc)
    case True
    then have ne: "pb \<noteq> []" and d: "lastClient acc \<noteq> fc"
      using pending_sideChanged [OF p, of fc] by simp_all
    have 1: "map meta (heap r) = map meta (take ?a (heap acc)) @ runMeta parse pb @ [(None, False)]"
      using setMetadata_range [of ?a ?k "heap acc @ [new]" "parse (contentChunkBuffer acc)" False]
        k ne m True h buf by (simp add: runMeta_def ch)
    have 2: "map meta (take ?n (heap r)) = map meta (take ?a (heap acc)) @ runMeta parse pb"
    proof -
      have "length (map meta (take ?a (heap acc)) @ runMeta parse pb) = ?n" using k by simp
      then have "take ?n ((map meta (take ?a (heap acc)) @ runMeta parse pb) @ [(None, False)]) =
          map meta (take ?a (heap acc)) @ runMeta parse pb"
        by (rule take_length_append)
      then show ?thesis using arg_cong [OF 1, of "take ?n"] by (simp add: take_map)
    qed
    have "pending r [(fc, b)]"
      using True b c lc ls l by (simp add: pending_def)
    moreover have "\<And>ys. annotations parse (pb @ (fc, b) # ys) =
        runMeta parse pb @ annotations parse ([(fc, b)] @ ys)"
      using annotations_change [OF ne side, of "(fc, b)" parse] d by simp
    ultimately show ?thesis using 2 l by (intro exI [of _ "[(fc, b)]"]) simp
  next
    case False
    then have s: "\<forall>x\<in>set (pb @ [(fc, b)]). fst x = fc"
      using pending_sideChanged [OF p, of fc] side by auto
    have u: "[?a..<?a + ?k] @ [?n] = [Suc ?n - Suc ?k..<Suc ?n]" using k by simp
    have "pending r (pb @ [(fc, b)])"
      using False b c lc ls l s k buf u ch by (simp add: pending_def)
    moreover have "take (Suc ?n - Suc ?k) (heap r) = take ?a (heap acc)"
      using False h k by simp
    ultimately show ?thesis using l by (intro exI [of _ "pb @ [(fc, b)]"]) simp
  qed
qed

lemma accountAll_meta:
  fixes acc :: "'m accum"
  assumes "pending acc pb" "xs \<noteq> []"
  shows "map meta (heap (accountAll decode parse format xs acc)) =
         map meta (take (length (heap acc) - length pb) (heap acc)) @
         annotations parse (pb @ processed (Skip format + Limit format) (globalIndex acc) xs)"
  using assms
proof (induction xs arbitrary: acc pb)
  case Nil
  then show ?case by simp
next
  case (Cons x xs)
  obtain fc b where x: "x = (fc, b)" by (cases x)
  let ?r = "account decode parse format fc b (xs = []) acc"
  show ?case
  proof (cases "xs = [] \<or> Skip format + Limit format < globalIndex acc + b_size b")
    case True
    then have aa: "accountAll decode parse format (x # xs) acc = fst ?r"
      by (auto simp: x split_def account_facts)
    have pr: "processed (Skip format + Limit format) (globalIndex acc) (x # xs) = [(fc, b)]"
      using True by (auto simp: x)
    show ?thesis
      unfolding aa pr using account_meta_flush [OF Cons(2) True, of decode parse fc] .
  next
    case False
    then have ne: "xs \<noteq> []" and ns: "\<not> Skip format + Limit format < globalIndex acc + b_size b"
      by simp_all
    from account_meta_keep [OF Cons(2) _ ns, of "xs = []" decode parse fc] ne
    obtain pb' where p': "pending (fst ?r) pb'" and
      e: "\<And>ys. map meta (take (length (heap (fst ?r)) - length pb') (heap (fst ?r))) @
                    annotations parse (pb' @ ys) =
                  map meta (take (length (heap acc) - length pb) (heap acc)) @
                    annotations parse (pb @ (fc, b) # ys)"
      by auto
    have aa: "accountAll decode parse format (x # xs) acc = accountAll decode parse format xs (fst ?r)"
      using ns by (simp add: x split_def account_facts)
    have pr: "processed (Skip format + Limit format) (globalIndex acc) (x # xs) =
        (fc, b) # processed (Skip format + Limit format) (globalIndex (fst ?r)) xs"
      using ns by (simp add: x account_facts)
    show ?thesis
      unfolding aa pr Cons(1) [OF p' ne] by (rule e)
  qed
qed

section \<open>The function on a well-formed store\<close>

lemma initialCursors_ok:
  assumes "wf_store db"
  shows "cursors_ok db (initialCursors db)"
    and "clientAhead db (initialCursors db) = sideBlocks (clientDocs db)"
    and "serverAhead db (initialCursors db) = sideBlocks (serverDocs db)"
proof -
  have "\<And>docs. list_all wf_stream docs \<Longrightarrow> 0 < length docs \<Longrightarrow> BlocksIndexes (docs ! 0) \<noteq> []"
    by (simp add: list_all_length wf_stream_def)
  then show "cursors_ok db (initialCursors db)"
    using assms
    by (auto simp: cursors_ok_def cursor_ok_def initialCursors_def getConnectionStream_def wf_store_def)
  show "clientAhead db (initialCursors db) = sideBlocks (clientDocs db)"
    using sideBlocks_drop [of 0 "clientDocs db"]
    by (simp add: clientAhead_def ahead_def initialCursors_def getConnectionStream_def)
  show "serverAhead db (initialCursors db) = sideBlocks (serverDocs db)"
    using sideBlocks_drop [of 0 "serverDocs db"]
    by (simp add: serverAhead_def ahead_def initialCursors_def getConnectionStream_def)
qed

lemma run_accountAll:
  assumes "wf_store db"
  shows "\<exists>cur. GetConnectionPayload_run decode parse db format =
           Inr (cur, accountAll decode parse (defaultLimit format) (merged db) initialAccum)"
  using loop_accountAll [OF assms initialCursors_ok(1) [OF assms], of decode parse "defaultLimit format" initialAccum]
    initialCursors_ok(2,3) [OF assms]
  by (simp add: GetConnectionPayload_run_def merged_def)

lemma blockPayload_defaultLimit [simp]:
  "blockPayload decode (defaultLimit format) = blockPayload decode format"
  by (rule ext) (simp add: blockPayload_def defaultLimit_def)

lemma run_facts:
  fixes acc :: "'m accum"
  assumes wf: "wf_store db"
    and run: "GetConnectionPayload_run decode parse db format = Inr (cur, acc)"
  shows "map bare (heap acc) = map (blockPayload decode format) (traversal db format)"
    and "map meta (heap acc) = annotations parse (traversal db format)"
    and "map RegexMatches (heap acc) = regexOf 0 0 (traversal db format)"
    and "sorted_wrt (<) (payloads acc)"
    and "\<forall>p\<in>set (payloads acc). p < length (heap acc)"
    and "\<not> Skip (defaultLimit format) + Limit (defaultLimit format) < globalIndex acc \<Longrightarrow>
           traversal db format = merged db"
    and "unat (Skip (defaultLimit format)) + unat (Limit (defaultLimit format)) < 2 ^ 64 \<Longrightarrow>
           payloads acc = paginate_spec (Skip (defaultLimit format)) (Limit (defaultLimit format))
             (zip (endOffsets 0 (merged db)) [0..<length (merged db)])"
proof -
  let ?f = "defaultLimit format"
  have acc: "acc = accountAll decode parse ?f (merged db) (initialAccum :: 'm accum)"
    using run_accountAll [OF wf, of decode parse format] run by auto
  have i: "heap (initialAccum :: 'm accum) = []" "payloads (initialAccum :: 'm accum) = []"
    "globalIndex (initialAccum :: 'm accum) = 0" "clientIndex (initialAccum :: 'm accum) = 0"
    "serverIndex (initialAccum :: 'm accum) = 0"
    by (simp_all add: initialAccum_def)
  show "map bare (heap acc) = map (blockPayload decode format) (traversal db format)"
    using accountAll_bare [of decode parse ?f "merged db" initialAccum]
    by (simp add: acc i traversal_def)
  show "map meta (heap acc) = annotations parse (traversal db format)"
  proof (cases "merged db = []")
    case True
    then show ?thesis by (simp add: acc i traversal_def annotations_def)
  next
    case False
    have "pending (initialAccum :: 'm accum) []"
      by (simp add: pending_def initialAccum_def)
    from accountAll_meta [OF this False, of decode parse ?f]
    show ?thesis by (simp add: acc i traversal_def)
  qed
  show "map RegexMatches (heap acc) = regexOf 0 0 (traversal db format)"
    using accountAll_RegexMatches [of decode parse ?f "merged db" initialAccum]
    by (simp add: acc i traversal_def)
  have "sorted_wrt (<) (payloads acc) \<and> (\<forall>p\<in>set (payloads acc). p < length (heap acc))"
    unfolding acc by (rule accountAll_payloads_sorted) (simp_all add: i)
  then show "sorted_wrt (<) (payloads acc)" and "\<forall>p\<in>set (payloads acc). p < length (heap acc)"
    by simp_all
  show "traversal db format = merged db" if "\<not> Skip ?f + Limit ?f < globalIndex acc"
    using accountAll_complete [of ?f decode parse "merged db" initialAccum] that
    by (simp add: acc i traversal_def)
  show "payloads acc = paginate_spec (Skip ?f) (Limit ?f)
             (zip (endOffsets 0 (merged db)) [0..<length (merged db)])"
    if "unat (Skip ?f) + unat (Limit ?f) < 2 ^ 64"
    using accountAll_payloads [OF that, of decode parse "merged db" initialAccum]
    by (simp add: acc i)
qed

lemma returned_subseq:
  fixes acc :: "'m accum"
  assumes wf: "wf_store db"
    and run: "GetConnectionPayload_run decode parse db format = Inr (cur, acc)"
  shows "GetConnectionPayload decode parse db format = Inr (map ((!) (heap acc)) (payloads acc))"
    and "subseq (map ((!) (heap acc)) (payloads acc)) (heap acc)"
proof -
  show "GetConnectionPayload decode parse db format = Inr (map ((!) (heap acc)) (payloads acc))"
    by (simp add: GetConnectionPayload_def returned_def run)
  show "subseq (map ((!) (heap acc)) (payloads acc)) (heap acc)"
    using subseq_map_nth [of "payloads acc" 0 "heap acc"] run_facts(4,5) [OF wf run] by simp
qed

lemma prefix_traversal: "prefix (traversal db format) (merged db)"
  by (simp add: traversal_def prefix_processed)

lemma sorted_wrt_subseq:
  assumes "subseq xs ys" "sorted_wrt R ys"
  shows "sorted_wrt R xs"
  using assms
proof (induction rule: list_emb.induct)
  case (list_emb_Nil ys)
  then show ?case by simp
next
  case (list_emb_Cons xs ys y)
  then show ?case by simp
next
  case (list_emb_Cons2 x y xs ys)
  then have "set xs \<subseteq> set ys" by (auto dest: list_emb_set)
  with list_emb_Cons2 show ?case by auto
qed

lemma mergeBlocks_client: "x \<in> set (mergeBlocks C S) \<Longrightarrow> fst x \<Longrightarrow> snd x \<in> set C"
  by (induction C S rule: mergeBlocks.induct) (auto split: if_splits)

lemma mergeBlocks_tie:
  assumes "sorted (map b_timestamp C)"
  shows "sorted_wrt (\<lambda>x y. \<not> fst x \<and> fst y \<longrightarrow> b_timestamp (snd x) < b_timestamp (snd y))
           (mergeBlocks C S)"
  using assms
proof (induction C S rule: mergeBlocks.induct)
  case 1
  then show ?case by simp
next
  case (2 c cs)
  then show ?case by simp
next
  case (3 s ss)
  then show ?case by (auto dest: mergeBlocks_client)
next
  case (4 c cs s ss)
  show ?case
  proof (cases "b_timestamp c \<le> b_timestamp s")
    case True
    with 4 show ?thesis by simp
  next
    case False
    have "\<And>y. y \<in> set (mergeBlocks (c # cs) ss) \<Longrightarrow> fst y \<Longrightarrow>
            b_timestamp s < b_timestamp (snd y)"
    proof -
      fix y assume "y \<in> set (mergeBlocks (c # cs) ss)" "fst y"
      then have "snd y \<in> set (c # cs)" by (rule mergeBlocks_client)
      then have "b_timestamp c \<le> b_timestamp (snd y)" using 4(3) by auto
      with False show "b_timestamp s < b_timestamp (snd y)" by simp
    qed
    with 4 False show ?thesis by auto
  qed
qed


lemma sideTime_bare:
  "map (\<lambda>p. (FromClient p, Timestamp p)) h = map (\<lambda>p. (FromClient p, Timestamp p)) (map bare h)"
  by (simp add: bare_def)

lemma sideTime_blockPayload:
  "map (\<lambda>p. (FromClient p, Timestamp p)) (map (blockPayload decode format) xs) =
   map (\<lambda>x. (fst x, b_timestamp (snd x))) xs"
  by (simp add: blockPayload_def)

text \<open>The definitions a concrete call unfolds to.\<close>

lemmas reader_defs =
  GetConnectionPayload_def GetConnectionPayload_run_def returned_def loop.simps iteration_def
  initialCursors_def initialAccum_def defaultLimit_def DefaultQueryFormatLimit_def
  getConnectionStream_def zeroStream_def bothZero_def nextFromClient_def hasClientBlocks_def
  hasServerBlocks_def readBlock_def go_index_def go_slice_def emitClient_def emitServer_def
  consumeBlock_def advanceClient_def advanceServer_def collect_def updateMetadata_def
  findMatchesBetween_def sliceBetween_def Let_def

lemmas spec_defs =
  wf_store_def wf_stream_def merged_def sideBlocks_def blocksOf_def blockAt_def blockEnd_def
  blockPayload_def bare_def upt_conv_Cons

section \<open>The returned list\<close>

text \<open>
  The Payloads returned are those of the blocks walked that end after \<^verbatim>\<open>Skip\<close>; the
  walk ends with the first block that makes \<^verbatim>\<open>globalIndex\<close> exceed the bound.
\<close>

lemma length_endOffsets [simp]: "length (endOffsets g T) = length T"
  by (induction T arbitrary: g) auto

lemma kept_Nil [simp]: "kept skip g [] xs = []"
  by (simp add: kept_def)

lemma kept_Cons:
  "kept skip g (t # T) (x # xs) =
   (if skip < g + b_size (snd t) then [x] else []) @ kept skip (g + b_size (snd t)) T xs"
  by (simp add: kept_def)

lemma kept_map: "map f (kept skip g T xs) = kept skip g T (map f xs)"
proof -
  have "\<And>es. map f (map snd (filter (\<lambda>ex. skip < fst ex) (zip es xs))) =
      map snd (filter (\<lambda>ex. skip < fst ex) (zip es (map f xs)))"
  proof (induction xs)
    case Nil
    show ?case by simp
  next
    case (Cons x xs)
    show ?case using Cons [of "tl es"] by (cases es) auto
  qed
  then show ?thesis by (simp add: kept_def)
qed

lemma kept_subseq: "subseq (kept skip g T xs) xs"
proof -
  have "\<And>es. subseq (map snd (filter (\<lambda>ex. skip < fst ex) (zip es xs))) xs"
  proof (induction xs)
    case Nil
    show ?case by simp
  next
    case (Cons x xs)
    show ?case using Cons [of "tl es"] by (cases es) auto
  qed
  then show ?thesis by (simp add: kept_def)
qed

lemma accountAll_payloads_kept:
  "payloads (accountAll decode parse format xs acc) =
   payloads acc @
   kept (Skip format) (globalIndex acc)
     (processed (Skip format + Limit format) (globalIndex acc) xs)
     [length (heap acc)..<
      length (heap acc) + length (processed (Skip format + Limit format) (globalIndex acc) xs)]"
proof (induction xs arbitrary: acc)
  case Nil
  then show ?case by simp
next
  case (Cons x xs)
  obtain fc b where x: "x = (fc, b)" by (cases x)
  let ?a = "fst (account decode parse format fc b (xs = []) acc)"
  let ?g = "globalIndex acc + b_size b" and ?n = "length (heap acc)"
  let ?bound = "Skip format + Limit format"
  have u: "\<And>k. [?n..<?n + Suc k] = ?n # [Suc ?n..<Suc ?n + k]"
    by (simp add: upt_conv_Cons del: upt_Suc)
  show ?case
  proof (cases "?bound < ?g")
    case True
    have p: "processed ?bound (globalIndex acc) ((fc, b) # xs) = [(fc, b)]"
      using True by simp
    have a: "accountAll decode parse format ((fc, b) # xs) acc = ?a"
      using True by (simp add: split_def account_facts)
    show ?thesis
      unfolding x p a by (simp add: account_facts kept_Cons)
  next
    case False
    let ?P = "processed ?bound ?g xs"
    have p: "processed ?bound (globalIndex acc) ((fc, b) # xs) = (fc, b) # ?P"
      using False by simp
    have a: "accountAll decode parse format ((fc, b) # xs) acc =
        accountAll decode parse format xs ?a"
      using False by (simp add: split_def account_facts)
    have ih: "payloads (accountAll decode parse format xs ?a) =
        payloads ?a @ kept (Skip format) ?g ?P [Suc ?n..<Suc ?n + length ?P]"
      using Cons [of ?a] by (simp add: account_facts)
    have l: "[?n..<?n + length ((fc, b) # ?P)] = ?n # [Suc ?n..<Suc ?n + length ?P]"
      using u [of "length ?P"] by simp
    show ?thesis
      unfolding x p a ih l by (simp add: account_facts kept_Cons)
  qed
qed

lemma processed_stop:
  "processed bound g xs = xs \<or>
   (processed bound g xs \<noteq> [] \<and> bound < last (endOffsets g (processed bound g xs)))"
proof (induction xs arbitrary: g)
  case Nil
  show ?case by simp
next
  case (Cons x xs)
  show ?case
  proof (cases "bound < g + b_size (snd x)")
    case True
    then show ?thesis by simp
  next
    case False
    from Cons [of "g + b_size (snd x)"] show ?thesis
    proof
      assume "processed bound (g + b_size (snd x)) xs = xs"
      then show ?thesis using False by simp
    next
      assume a: "processed bound (g + b_size (snd x)) xs \<noteq> [] \<and>
        bound < last (endOffsets (g + b_size (snd x)) (processed bound (g + b_size (snd x)) xs))"
      then have "endOffsets (g + b_size (snd x)) (processed bound (g + b_size (snd x)) xs) \<noteq> []"
        by (cases "processed bound (g + b_size (snd x)) xs") auto
      then show ?thesis using False a by simp
    qed
  qed
qed

lemma processed_before_last:
  "\<forall>e\<in>set (butlast (endOffsets g (processed bound g xs))). e \<le> bound"
proof (induction xs arbitrary: g)
  case Nil
  show ?case by simp
next
  case (Cons x xs)
  show ?case
  proof (cases "bound < g + b_size (snd x)")
    case True
    then show ?thesis by simp
  next
    case False
    then have "g + b_size (snd x) \<le> bound" by (simp add: not_less)
    with False Cons [of "g + b_size (snd x)"] show ?thesis by simp
  qed
qed

text \<open>
  The value returned on a well-formed store, field by field: what the branch writes,
  what \<^verbatim>\<open>updateMetadata\<close> writes, and the pattern matches.
\<close>

lemma output_facts:
  fixes parse :: "byte list \<Rightarrow> 'm option"
  assumes wf: "wf_store db"
  shows "\<exists>out.
      GetConnectionPayload decode parse db format = Inr out \<and>
      map bare out =
        kept (Skip format) 0 (traversal db format)
          (map (blockPayload decode format) (traversal db format)) \<and>
      map meta out = kept (Skip format) 0 (traversal db format) (annotations parse (traversal db format)) \<and>
      map RegexMatches out =
        kept (Skip format) 0 (traversal db format) (regexOf 0 0 (traversal db format))"
proof -
  let ?f = "defaultLimit format" and ?T = "traversal db format"
  from run_accountAll [OF wf, of decode parse format]
  obtain cur and acc :: "'m accum" where
    run: "GetConnectionPayload_run decode parse db format = Inr (cur, acc)" and
    acc: "acc = accountAll decode parse ?f (merged db) initialAccum"
    by auto
  note f = run_facts [OF wf run]
  note r = returned_subseq [OF wf run]
  let ?out = "map ((!) (heap acc)) (payloads acc)"
  have sk: "Skip ?f = Skip format" by (simp add: defaultLimit_def)
  have len: "length (heap acc) = length ?T"
    using arg_cong [OF f(1), of length] by simp
  have i: "heap (initialAccum :: 'm accum) = []" "payloads (initialAccum :: 'm accum) = []"
    "globalIndex (initialAccum :: 'm accum) = 0"
    by (simp_all add: initialAccum_def)
  have "payloads acc = kept (Skip format) 0 ?T [0..<length ?T]"
    unfolding acc accountAll_payloads_kept
    by (simp add: i sk traversal_def)
  then have "?out = kept (Skip format) 0 ?T (map ((!) (heap acc)) [0..<length (heap acc)])"
    by (simp add: kept_map len)
  then have out: "?out = kept (Skip format) 0 ?T (heap acc)"
    by (simp only: map_nth)
  have "map bare ?out = kept (Skip format) 0 ?T (map (blockPayload decode format) ?T)"
    unfolding out kept_map f(1) ..
  moreover have "map meta ?out = kept (Skip format) 0 ?T (annotations parse ?T)"
    unfolding out kept_map f(2) ..
  moreover have "map RegexMatches ?out = kept (Skip format) 0 ?T (regexOf 0 0 ?T)"
    unfolding out kept_map f(3) ..
  ultimately show ?thesis using r(1) by blast
qed

section \<open>Indexes and ties in the returned list\<close>

lemma mergeBlocks_filter_client: "map snd (filter fst (mergeBlocks C S)) = C"
  by (induction C S rule: mergeBlocks.induct) auto

lemma mergeBlocks_filter_server: "map snd (filter (\<lambda>x. \<not> fst x) (mergeBlocks C S)) = S"
  by (induction C S rule: mergeBlocks.induct) auto

lemma b_start_sideBlocks: "map b_start (sideBlocks docs) = concat (map BlocksIndexes docs)"
proof -
  have "\<And>d. map b_start (blocksOf d) = BlocksIndexes d"
    by (rule nth_equalityI) (simp_all add: blocksOf_def blockAt_def)
  then have "map b_start \<circ> blocksOf = BlocksIndexes" by (simp add: fun_eq_iff)
  then show ?thesis
    by (simp add: sideBlocks_def map_concat)
qed

lemma Index_filter_bare:
  "map Index (filter (\<lambda>p. P (FromClient p)) h) =
   map Index (filter (\<lambda>p. P (FromClient p)) (map bare h))"
  by (induction h) (auto simp: bare_def)

lemma Index_filter_blockPayload:
  "map Index (filter (\<lambda>p. P (FromClient p)) (map (blockPayload decode format) T)) =
   map (b_start \<circ> snd) (filter (\<lambda>x. P (fst x)) T)"
  by (induction T) (auto simp: blockPayload_def)

lemma side_indexes_subseq:
  fixes out :: "'m Payload list"
  assumes b: "map bare out =
      kept skip 0 (traversal db format) (map (blockPayload decode format) (traversal db format))"
  shows "subseq (map Index (filter (\<lambda>p. P (FromClient p)) out))
           (map (b_start \<circ> snd) (filter (\<lambda>x. P (fst x)) (merged db)))"
proof -
  let ?T = "traversal db format"
  have "subseq (map bare out) (map (blockPayload decode format) ?T)"
    unfolding b by (rule kept_subseq)
  then have "subseq (map Index (filter (\<lambda>p. P (FromClient p)) (map bare out)))
      (map Index (filter (\<lambda>p. P (FromClient p))
         (map (blockPayload decode format) ?T :: 'm Payload list)))"
    by (rule subseq_map [OF subseq_filter])
  then have 1: "subseq (map Index (filter (\<lambda>p. P (FromClient p)) out))
      (map (b_start \<circ> snd) (filter (\<lambda>x. P (fst x)) ?T))"
    unfolding Index_filter_bare [symmetric] Index_filter_blockPayload .
  have "prefix (map (b_start \<circ> snd) (filter (\<lambda>x. P (fst x)) ?T))
      (map (b_start \<circ> snd) (filter (\<lambda>x. P (fst x)) (merged db)))"
    using prefix_traversal [of db format] by (intro map_mono_prefix filter_mono_prefix)
  then have "subseq (map (b_start \<circ> snd) (filter (\<lambda>x. P (fst x)) ?T))
      (map (b_start \<circ> snd) (filter (\<lambda>x. P (fst x)) (merged db)))"
    by (rule prefix_imp_subseq)
  with 1 show ?thesis by (rule subseq_order.trans)
qed

lemma merged_client_indexes:
  "map (b_start \<circ> snd) (filter fst (merged db)) = concat (map BlocksIndexes (clientDocs db))"
  using mergeBlocks_filter_client [of "sideBlocks (clientDocs db)" "sideBlocks (serverDocs db)"]
    b_start_sideBlocks [of "clientDocs db"]
  by (simp add: merged_def flip: map_map)

lemma merged_server_indexes:
  "map (b_start \<circ> snd) (filter (\<lambda>x. \<not> fst x) (merged db)) =
   concat (map BlocksIndexes (serverDocs db))"
  using mergeBlocks_filter_server [of "sideBlocks (clientDocs db)" "sideBlocks (serverDocs db)"]
    b_start_sideBlocks [of "serverDocs db"]
  by (simp add: merged_def flip: map_map)

lemma single_doc_sorted:
  assumes "list_all wf_stream docs" "length docs \<le> 1"
  shows "sorted_wrt (<) (concat (map BlocksIndexes docs))"
proof (cases docs)
  case Nil
  then show ?thesis by simp
next
  case (Cons d ds)
  with assms show ?thesis by (simp add: wf_stream_def)
qed

lemma tie_order:
  assumes s: "sorted (map b_timestamp (sideBlocks (clientDocs db)))"
    and b: "map bare out =
      kept skip 0 (traversal db format) (map (blockPayload decode format) (traversal db format))"
  shows "sorted_wrt (\<lambda>p q. Timestamp p = Timestamp q \<and> FromClient q \<longrightarrow> FromClient p) out"
proof -
  let ?T = "traversal db format"
  let ?R = "\<lambda>p q :: 'a Payload. \<not> FromClient p \<and> FromClient q \<longrightarrow> Timestamp p < Timestamp q"
  have "sorted_wrt (\<lambda>x y. \<not> fst x \<and> fst y \<longrightarrow> b_timestamp (snd x) < b_timestamp (snd y)) (merged db)"
    unfolding merged_def using s by (rule mergeBlocks_tie)
  then have "sorted_wrt (\<lambda>x y. \<not> fst x \<and> fst y \<longrightarrow> b_timestamp (snd x) < b_timestamp (snd y)) ?T"
    using prefix_traversal [of db format] sorted_wrt_subseq by blast
  then have "sorted_wrt ?R (map (blockPayload decode format) ?T)"
    by (simp add: sorted_wrt_map blockPayload_def)
  then have "sorted_wrt ?R (map bare out)"
    unfolding b using kept_subseq sorted_wrt_subseq by blast
  then have "sorted_wrt ?R out"
    by (simp add: sorted_wrt_map bare_def)
  then show ?thesis
    by (rule sorted_wrt_mono_rel [rotated]) auto
qed

section \<open>Runs of one side\<close>

text \<open>
  \<open>runs\<close> cuts a list into its maximal runs: the runs put together give the list,
  each run is of one side, and two runs that follow each other are of different sides.
\<close>

lemma runs_not_Nil: "xs \<noteq> [] \<Longrightarrow> runs xs \<noteq> []"
  by (induction xs rule: runs.induct) (auto split: list.splits)

lemma runs_hd: "xs \<noteq> [] \<Longrightarrow> hd (runs xs) \<noteq> [] \<and> hd (hd (runs xs)) = hd xs"
  by (induction xs rule: runs.induct) (auto split: list.splits)

lemma runs_Cons_same:
  assumes "fst x = fst y"
  obtains r rs where "runs (y # zs) = r # rs" "runs (x # y # zs) = (x # r) # rs" "r \<noteq> []" "hd r = y"
proof -
  obtain r rs where rr: "runs (y # zs) = r # rs"
    using runs_not_Nil [of "y # zs"] by (cases "runs (y # zs)") auto
  have "runs (x # y # zs) = (x # r) # rs"
    unfolding runs.simps(3) if_P [OF assms] rr by simp
  moreover have "r \<noteq> []" "hd r = y"
    using runs_hd [of "y # zs"] rr by simp_all
  ultimately show ?thesis using rr that by blast
qed

lemma runs_Cons_change: "fst x \<noteq> fst y \<Longrightarrow> runs (x # y # zs) = [x] # runs (y # zs)"
  by simp

lemma runs_concat: "concat (runs xs) = xs"
proof (induction xs rule: runs.induct)
  case 1
  show ?case by simp
next
  case (2 x)
  show ?case by simp
next
  case (3 x y zs)
  show ?case
  proof (cases "fst x = fst y")
    case True
    from runs_Cons_same [OF True, of zs] obtain r rs where
      rr: "runs (y # zs) = r # rs" and e: "runs (x # y # zs) = (x # r) # rs"
      by blast
    have "concat (r # rs) = y # zs" using 3(1) [OF True] unfolding rr .
    then show ?thesis unfolding e by simp
  next
    case False
    have "concat (runs (y # zs)) = y # zs" using 3(2) [OF False] .
    then show ?thesis unfolding runs_Cons_change [OF False] by simp
  qed
qed

lemma runs_one_side: "r \<in> set (runs xs) \<Longrightarrow> r \<noteq> [] \<and> (\<forall>x\<in>set r. fst x = fst (hd r))"
proof (induction xs arbitrary: r rule: runs.induct)
  case 1
  then show ?case by simp
next
  case (2 x)
  then show ?case by simp
next
  case (3 x y zs)
  show ?case
  proof (cases "fst x = fst y")
    case True
    from runs_Cons_same [OF True, of zs] obtain r' rs where
      rr: "runs (y # zs) = r' # rs" and e: "runs (x # y # zs) = (x # r') # rs"
      and ne: "r' \<noteq> []" and h: "hd r' = y"
      by blast
    have ih: "\<And>q. q \<in> set (r' # rs) \<Longrightarrow> q \<noteq> [] \<and> (\<forall>z\<in>set q. fst z = fst (hd q))"
      using 3(1) [OF True] unfolding rr .
    from 3(3) have "r = x # r' \<or> r \<in> set rs" unfolding e by simp
    then show ?thesis
    proof
      assume r: "r = x # r'"
      have "\<forall>z\<in>set r'. fst z = fst (hd r')"
        using ih [OF list.set_intros(1)] by (rule conjunct2)
      then have "\<forall>z\<in>set r'. fst z = fst x" unfolding h True .
      then have s: "\<forall>z\<in>set (x # r'). fst z = fst x" by (metis set_ConsD)
      show ?thesis
        unfolding r
      proof (intro conjI)
        show "x # r' \<noteq> []" by (rule list.distinct(2))
        show "\<forall>z\<in>set (x # r'). fst z = fst (hd (x # r'))" unfolding list.sel by (rule s)
      qed
    next
      assume "r \<in> set rs"
      then have "r \<in> set (r' # rs)" by (rule list.set_intros(2))
      then show ?thesis by (rule ih)
    qed
  next
    case False
    from 3(3) have "r = [x] \<or> r \<in> set (runs (y # zs))"
      unfolding runs_Cons_change [OF False] by simp
    then show ?thesis
    proof
      assume "r = [x]"
      then show ?thesis by simp
    next
      assume "r \<in> set (runs (y # zs))"
      then show ?thesis by (rule 3(2) [OF False])
    qed
  qed
qed

lemma runs_maximal:
  "successively (\<lambda>r r'. fst (last r) \<noteq> fst (hd r')) (runs xs)"
proof (induction xs rule: runs.induct)
  case 1
  then show ?case by simp
next
  case (2 x)
  then show ?case by simp
next
  case (3 x y zs)
  obtain r' rs where rr: "runs (y # zs) = r' # rs"
    using runs_not_Nil [of "y # zs"] by (cases "runs (y # zs)") auto
  have h: "r' \<noteq> [] \<and> hd r' = y" using runs_hd [of "y # zs"] rr by simp
  show ?case
  proof (cases "fst x = fst y")
    case True
    with 3(1) rr h show ?thesis by (cases rs) auto
  next
    case False
    with 3(2) rr h show ?thesis by (simp add: successively_Cons)
  qed
qed

section \<open>Pagination when the bound does not wrap\<close>

lemma kept_paginate:
  assumes "unat skip + unat lim < 2 ^ 64"
  shows "kept skip g (processed (skip + lim) g xs) (map f (processed (skip + lim) g xs)) =
         paginate_spec skip lim (zip (endOffsets g xs) (map f xs))"
proof (induction xs arbitrary: g)
  case Nil
  show ?case by simp
next
  case (Cons x xs)
  let ?g = "g + b_size (snd x)"
  have u: "unat (skip + lim) = unat skip + unat lim"
    using assms unat_add_lem [of skip lim] by simp
  have lt: "(skip + lim < ?g) = (unat skip + unat lim < unat ?g)"
    by (simp add: word_less_nat_alt u)
  have sk: "(skip < ?g) = (unat skip < unat ?g)" by (simp add: word_less_nat_alt)
  have le: "(?g \<le> skip) = (unat ?g \<le> unat skip)" by (simp add: word_le_nat_alt)
  show ?case
  proof (cases "skip + lim < ?g")
    case True
    then have "unat skip + unat lim < unat ?g" "skip < ?g" "\<not> ?g \<le> skip"
      using lt sk le by simp_all
    with True show ?thesis by (simp add: kept_Cons)
  next
    case False
    then have n: "\<not> unat skip + unat lim < unat ?g" using lt by simp
    show ?thesis
    proof (cases "skip < ?g")
      case True
      then have "\<not> ?g \<le> skip" using sk le by simp
      with True False n show ?thesis using Cons [of ?g] by (simp add: kept_Cons)
    next
      case c: False
      then have "?g \<le> skip" using sk le by simp
      with c False n show ?thesis using Cons [of ?g] by (simp add: kept_Cons)
    qed
  qed
qed

section \<open>Two runs give the same Payloads up to the order of the matches\<close>

lemma same_tagged_Pair [simp]:
  "same_tagged (a, b) (a', b') = (a = a' \<and> same_block b b')"
  by (simp add: same_tagged_def)

















section \<open>Results\<close>

text \<open>
  C3 (the code at the failing input). A match \<open>[0, 5)\<close> ends exactly where the block
  \<open>[5, 10)\<close> starts, so the two do not overlap; \<^verbatim>\<open>findMatchesBetween\<close> still returns
  the empty range \<open>{from: 0, to: 0}\<close> for it, because the first test of the skip
  condition is \<^verbatim>\<open>from > slice[1]\<close> where the half-open ranges need \<^verbatim>\<open>from >= slice[1]\<close>.
\<close>

theorem findMatchesBetween_touching_included:
  "findMatchesBetween [(1, [(0, 5)])] 5 10 = [\<lparr>From = 0, To = 0\<rparr>]"
  by (simp add: findMatchesBetween_def sliceBetween_def)

text \<open>
  C8 (the code at the failing input). The upper bound in \<^verbatim>\<open>isValidPort\<close> is 65565, not
  65535: the string \<open>65536\<close> is accepted as a required port, and so is \<open>65565\<close>.
\<close>

theorem isValidPort_accepts_65536:
  "isValidPort ''65536'' True \<and> isValidPort ''65565'' True \<and> \<not> isValidPort ''65566'' True"
  by (simp add: isValidPort_def parseInt10_def isDigit_def isWhiteSpace_def digitVal_def)

text \<open>
  C9 (the code at the failing input). \<^verbatim>\<open>isValidAddress\<close> is a stub that returns true:
  the address \<open>not-an-ip\<close> is accepted, \<^verbatim>\<open>validateSettings\<close> sets no error and
  \<^verbatim>\<open>saveSettings\<close> posts the settings.
\<close>

theorem validateSettings_accepts_not_an_ip:
  "isValidAddress ''not-an-ip'' \<and>
   validateSettings
     \<lparr>config = \<lparr>server_address = ''not-an-ip'', flag_regex = ''CTF{.*}='', auth_required = False\<rparr>,
      accounts = []\<rparr>
     \<lparr>pane_settings = s0, serverAddressError = None, flagRegexError = None\<rparr>
   = (True, \<lparr>pane_settings = s0, serverAddressError = None, flagRegexError = None\<rparr>) \<and>
   fst (saveSettings
     \<lparr>pane_settings =
        \<lparr>config = \<lparr>server_address = ''not-an-ip'', flag_regex = ''CTF{.*}='', auth_required = False\<rparr>,
         accounts = []\<rparr>,
      serverAddressError = None, flagRegexError = None\<rparr>)
   = Some \<lparr>config = \<lparr>server_address = ''not-an-ip'', flag_regex = ''CTF{.*}='', auth_required = False\<rparr>,
           accounts = []\<rparr>"
  by (simp add: isValidAddress_def validateSettings_def saveSettings_def)

text \<open>
  C10 (the code at the failing input). With 500 connections shown, a \<^verbatim>\<open>from\<close> load that
  brings one more connection trims the list with
  \<^verbatim>\<open>slice(length - maxConnections, length - 1)\<close>, which drops the newest element too:
  499 connections are left, the last one shown is 499, and \<^verbatim>\<open>lastConnection\<close> is the
  dropped 500.
\<close>

theorem loadConnections_from_trim_drops_last:
  "loadConnections \<lparr>p_from = Some ''499'', p_to = None\<rparr> [500]
     \<lparr>loading = True, connections = [0..<500],
      firstConnection = Val 0, lastConnection = Val (499::nat)\<rparr>
   = \<lparr>loading = False, connections = [1..<500],
      firstConnection = Val 1, lastConnection = Val 500\<rparr>"
  by (simp add: loadConnections_def js_nth_def js_slice_def maxConnections_def nth_append)

text \<open>
  C1, as amended. On a store that satisfies the data model the function returns. It
  walks the merge of the two sides from its start: at each step the block with the
  earlier timestamp, the client's on a tie, and the rest of one side when the other has
  no block left; timestamps are compared as their \<^verbatim>\<open>UnixNano()\<close> values. The blocks
  walked are a prefix of the merge; no block before the last one walked makes
  \<^verbatim>\<open>globalIndex\<close> exceed \<^verbatim>\<open>Skip + Limit\<close>, a sum of \<^verbatim>\<open>uint64\<close>; and the walk
  covers the whole merge unless its last block does exceed it. The Payloads returned are
  those of the blocks walked that end after \<^verbatim>\<open>Skip\<close>, in the order of the walk, each
  with the side, content, index, timestamp and loss flag of its block. When the client's
  block timestamps do not decrease along its stream, no server Payload in the output
  stands before a client Payload with the same timestamp.
\<close>

theorem reader_merge_order:
  fixes parse :: "byte list \<Rightarrow> 'm option"
  assumes "wf_store db"
  shows "\<exists>out.
      GetConnectionPayload decode parse db format = Inr out \<and>
      map bare out =
        kept (Skip format) 0 (traversal db format)
          (map (blockPayload decode format) (traversal db format)) \<and>
      prefix (traversal db format) (merged db) \<and>
      (\<forall>e\<in>set (butlast (endOffsets 0 (traversal db format))).
         e \<le> Skip format + Limit (defaultLimit format)) \<and>
      (traversal db format = merged db \<or>
       traversal db format \<noteq> [] \<and>
       Skip format + Limit (defaultLimit format) < last (endOffsets 0 (traversal db format))) \<and>
      (sorted (map b_timestamp (sideBlocks (clientDocs db))) \<longrightarrow>
         sorted_wrt (\<lambda>p q. Timestamp p = Timestamp q \<and> FromClient q \<longrightarrow> FromClient p) out)"
proof -
  from output_facts [OF assms, of decode parse format]
  obtain out :: "'m Payload list" where
    g: "GetConnectionPayload decode parse db format = Inr out" and
    b: "map bare out =
        kept (Skip format) 0 (traversal db format)
          (map (blockPayload decode format) (traversal db format))"
    by blast
  have sk: "Skip (defaultLimit format) = Skip format" by (simp add: defaultLimit_def)
  have st: "traversal db format = merged db \<or>
       traversal db format \<noteq> [] \<and>
       Skip format + Limit (defaultLimit format) < last (endOffsets 0 (traversal db format))"
    using processed_stop [of "Skip format + Limit (defaultLimit format)" 0 "merged db"]
    by (simp add: traversal_def sk)
  have fi: "\<forall>e\<in>set (butlast (endOffsets 0 (traversal db format))).
         e \<le> Skip format + Limit (defaultLimit format)"
    using processed_before_last [of 0 "Skip format + Limit (defaultLimit format)" "merged db"]
    by (simp add: traversal_def sk)
  have "sorted_wrt (\<lambda>p q. Timestamp p = Timestamp q \<and> FromClient q \<longrightarrow> FromClient p) out"
    if "sorted (map b_timestamp (sideBlocks (clientDocs db)))"
    using that b by (rule tie_order)
  with g b st fi prefix_traversal [of db format] show ?thesis by blast
qed

theorem reader_merge_order_witness:
  "wf_store ex_tie_db \<and>
   sorted (map b_timestamp (sideBlocks (clientDocs ex_tie_db))) \<and>
   (\<exists>out. GetConnectionPayload ex_decode ex_parse ex_tie_db ex_format = Inr out \<and>
      map bare out =
        kept (Skip ex_format) 0 (traversal ex_tie_db ex_format)
          (map (blockPayload ex_decode ex_format) (traversal ex_tie_db ex_format)) \<and>
      traversal ex_tie_db ex_format = merged ex_tie_db \<and>
      sorted_wrt (\<lambda>p q. Timestamp p = Timestamp q \<and> FromClient q \<longrightarrow> FromClient p) out)"
proof -
  have w: "wf_store ex_tie_db"
    by (simp add: ex_tie_db_def spec_defs)
  have s: "sorted (map b_timestamp (sideBlocks (clientDocs ex_tie_db)))"
    by (simp add: ex_tie_db_def spec_defs)
  have t: "traversal ex_tie_db ex_format = merged ex_tie_db"
    by (simp add: traversal_def defaultLimit_def DefaultQueryFormatLimit_def ex_format_def
        ex_tie_db_def spec_defs)
  from reader_merge_order [OF w, of ex_decode ex_parse ex_format] s w t
  show ?thesis by blast
qed

text \<open>
  C1 as stated fails where a side's timestamps decrease. The client's blocks have the
  timestamps 10 and 1, the server's block has 1: the server's block is emitted first,
  because the client's current block is the later one, so the server Payload with
  timestamp 1 stands before the client Payload with timestamp 1.
\<close>

theorem late_client_block_after_server:
  "wf_store ex_late_db \<and>
   GetConnectionPayload ex_decode ex_parse ex_late_db ex_format =
   Inr [\<lparr>FromClient = False, Content = ''.'', Metadata = Some 1, IsMetadataContinuation = False,
         Index = 0, Timestamp = 1, IsRetransmitted = False, RegexMatches = []\<rparr>,
        \<lparr>FromClient = True, Content = ''.'', Metadata = Some 2, IsMetadataContinuation = False,
         Index = 0, Timestamp = 10, IsRetransmitted = False, RegexMatches = []\<rparr>,
        \<lparr>FromClient = True, Content = ''.'', Metadata = Some 2, IsMetadataContinuation = True,
         Index = 1, Timestamp = 1, IsRetransmitted = False, RegexMatches = []\<rparr>]"
  by (simp add: reader_defs ex_late_db_def ex_format_def ex_decode_def ex_parse_def
      wf_store_def wf_stream_def)

text \<open>
  C2, as amended. On a store that satisfies the data model, the \<^verbatim>\<open>index\<close> of a returned
  Payload is the entry of \<^verbatim>\<open>blocks_indexes\<close> for its block, the start of the block in
  the payload of the document that holds it. On each side the indexes of the returned
  Payloads are a subsequence of the side's \<^verbatim>\<open>blocks_indexes\<close> arrays, put one after
  the other in the order of \<^verbatim>\<open>document_index\<close>; they are strictly increasing when
  the side has at most one document.
\<close>

theorem reader_index:
  fixes parse :: "byte list \<Rightarrow> 'm option"
  assumes "wf_store db"
  shows "\<exists>out.
      GetConnectionPayload decode parse db format = Inr out \<and>
      map (\<lambda>p. (FromClient p, Index p)) out =
        kept (Skip format) 0 (traversal db format)
          (map (\<lambda>x. (fst x, b_start (snd x))) (traversal db format)) \<and>
      subseq (map Index (filter FromClient out)) (concat (map BlocksIndexes (clientDocs db))) \<and>
      subseq (map Index (filter (\<lambda>p. \<not> FromClient p) out))
        (concat (map BlocksIndexes (serverDocs db))) \<and>
      (length (clientDocs db) \<le> 1 \<longrightarrow> sorted_wrt (<) (map Index (filter FromClient out))) \<and>
      (length (serverDocs db) \<le> 1 \<longrightarrow>
         sorted_wrt (<) (map Index (filter (\<lambda>p. \<not> FromClient p) out)))"
proof -
  from output_facts [OF assms, of decode parse format]
  obtain out :: "'m Payload list" where
    g: "GetConnectionPayload decode parse db format = Inr out" and
    b: "map bare out =
        kept (Skip format) 0 (traversal db format)
          (map (blockPayload decode format) (traversal db format))"
    by blast
  have "map (\<lambda>p. (FromClient p, Index p)) out = map (\<lambda>p. (FromClient p, Index p)) (map bare out)"
    by (simp add: bare_def)
  also have "\<dots> = kept (Skip format) 0 (traversal db format)
      (map (\<lambda>p. (FromClient p, Index p)) (map (blockPayload decode format) (traversal db format)
         :: 'm Payload list))"
    unfolding b kept_map ..
  also have "map (\<lambda>p :: 'm Payload. (FromClient p, Index p))
       (map (blockPayload decode format) (traversal db format)) =
      map (\<lambda>x. (fst x, b_start (snd x))) (traversal db format)"
    by (simp add: blockPayload_def)
  finally have ix: "map (\<lambda>p. (FromClient p, Index p)) out =
        kept (Skip format) 0 (traversal db format)
          (map (\<lambda>x. (fst x, b_start (snd x))) (traversal db format))" .
  have sc: "subseq (map Index (filter FromClient out)) (concat (map BlocksIndexes (clientDocs db)))"
    using side_indexes_subseq [OF b, of "\<lambda>x. x"] by (simp add: merged_client_indexes)
  have ss: "subseq (map Index (filter (\<lambda>p. \<not> FromClient p) out))
      (concat (map BlocksIndexes (serverDocs db)))"
    using side_indexes_subseq [OF b, of Not] by (simp add: merged_server_indexes)
  have "sorted_wrt (<) (map Index (filter FromClient out))" if "length (clientDocs db) \<le> 1"
    using single_doc_sorted [OF _ that] assms sc sorted_wrt_subseq
    by (auto simp: wf_store_def)
  moreover have "sorted_wrt (<) (map Index (filter (\<lambda>p. \<not> FromClient p) out))"
    if "length (serverDocs db) \<le> 1"
    using single_doc_sorted [OF _ that] assms ss sorted_wrt_subseq
    by (auto simp: wf_store_def)
  ultimately show ?thesis using g ix sc ss by blast
qed

theorem reader_index_witness:
  "wf_store ex_tie_db \<and> length (clientDocs ex_tie_db) \<le> 1 \<and> length (serverDocs ex_tie_db) \<le> 1 \<and>
   (\<exists>out. GetConnectionPayload ex_decode ex_parse ex_tie_db ex_format = Inr out \<and>
      sorted_wrt (<) (map Index (filter FromClient out)) \<and>
      sorted_wrt (<) (map Index (filter (\<lambda>p. \<not> FromClient p) out)))"
proof -
  have w: "wf_store ex_tie_db"
    by (simp add: ex_tie_db_def spec_defs)
  have l: "length (clientDocs ex_tie_db) \<le> 1" "length (serverDocs ex_tie_db) \<le> 1"
    by (simp_all add: ex_tie_db_def)
  from reader_index [OF w, of ex_decode ex_parse ex_format] w l
  show ?thesis by blast
qed

text \<open>
  C2 as stated fails with the second document of a side. The client side has two
  documents of one block of two bytes each: the second block starts at offset 2 of the
  client's bytes, and both Payloads have the index 0.
\<close>

theorem second_document_index_restarts:
  "wf_store ex_two_docs_db \<and>
   GetConnectionPayload ex_decode ex_parse ex_two_docs_db ex_format =
   Inr [\<lparr>FromClient = True, Content = ''..'', Metadata = Some 4, IsMetadataContinuation = False,
         Index = 0, Timestamp = 1, IsRetransmitted = False, RegexMatches = []\<rparr>,
        \<lparr>FromClient = True, Content = ''..'', Metadata = Some 4, IsMetadataContinuation = True,
         Index = 0, Timestamp = 2, IsRetransmitted = False, RegexMatches = []\<rparr>]"
  by (simp add: reader_defs ex_two_docs_db_def ex_format_def ex_decode_def ex_parse_def
      wf_store_def wf_stream_def)

text \<open>
  C4, as amended. On a store that satisfies the data model, take the maximal runs of
  blocks of one side among the blocks walked, those skipped included. The metadata
  parsed from the bytes of a run is on every Payload of the run, and
  \<^verbatim>\<open>is_metadata_continuation\<close> is false on the first Payload of the run and true on the
  others. A returned Payload has the two fields of its block.
\<close>

theorem reader_metadata:
  fixes parse :: "byte list \<Rightarrow> 'm option"
  assumes "wf_store db"
  shows "\<exists>out.
      GetConnectionPayload decode parse db format = Inr out \<and>
      map bare out =
        kept (Skip format) 0 (traversal db format)
          (map (blockPayload decode format) (traversal db format)) \<and>
      map (\<lambda>p. (Metadata p, IsMetadataContinuation p)) out =
        kept (Skip format) 0 (traversal db format) (annotations parse (traversal db format))"
proof -
  from output_facts [OF assms, of decode parse format]
  obtain out :: "'m Payload list" where
    g: "GetConnectionPayload decode parse db format = Inr out" and
    b: "map bare out =
        kept (Skip format) 0 (traversal db format)
          (map (blockPayload decode format) (traversal db format))" and
    m: "map meta out =
        kept (Skip format) 0 (traversal db format) (annotations parse (traversal db format))"
    by blast
  have "map (\<lambda>p. (Metadata p, IsMetadataContinuation p)) out = map meta out"
    by (simp add: meta_def)
  with g b m show ?thesis by auto
qed

theorem reader_metadata_witness:
  "wf_store ex_tie_db \<and>
   (\<exists>out.
      GetConnectionPayload ex_decode ex_parse ex_tie_db ex_format = Inr out \<and>
      map (\<lambda>p. (Metadata p, IsMetadataContinuation p)) out =
        kept (Skip ex_format) 0 (traversal ex_tie_db ex_format)
          (annotations ex_parse (traversal ex_tie_db ex_format)))"
proof -
  have w: "wf_store ex_tie_db"
    by (simp add: ex_tie_db_def spec_defs)
  from reader_metadata [OF w, of ex_decode ex_parse ex_format] w
  show ?thesis by blast
qed

text \<open>
  C4 as stated fails on a run of two Payloads: the second Payload has the metadata of
  the run as well, not only the first. The view of a connection relies on it: it shows
  a Payload with metadata and the continuation flag as already parsed.
\<close>

theorem metadata_on_every_payload_of_run:
  "wf_store ex_run_db \<and>
   GetConnectionPayload ex_decode ex_parse ex_run_db ex_format =
   Inr [\<lparr>FromClient = True, Content = ''..'', Metadata = Some 3, IsMetadataContinuation = False,
         Index = 0, Timestamp = 1, IsRetransmitted = False, RegexMatches = []\<rparr>,
        \<lparr>FromClient = True, Content = ''.'', Metadata = Some 3, IsMetadataContinuation = True,
         Index = 2, Timestamp = 2, IsRetransmitted = False, RegexMatches = []\<rparr>]"
  by (simp add: reader_defs ex_run_db_def ex_format_def ex_decode_def ex_parse_def
      wf_store_def wf_stream_def)

text \<open>
  C5, as amended. On a store that satisfies the data model, for a skip and a limit in
  effect whose sum is below \<open>2\<^sup>6\<^sup>4\<close>, the Payloads returned are those of the
  pagination over the merged blocks: a block that ends at or before \<^verbatim>\<open>skip\<close> is left
  out, every later block is returned, and the first block that makes \<^verbatim>\<open>globalIndex\<close>
  exceed \<^verbatim>\<open>skip + limit\<close> is returned and is the last.
\<close>

theorem reader_pagination:
  fixes parse :: "byte list \<Rightarrow> 'm option"
  assumes "wf_store db"
    and "unat (Skip format) + unat (Limit (defaultLimit format)) < 2 ^ 64"
  shows "\<exists>out.
      GetConnectionPayload decode parse db format = Inr out \<and>
      map bare out =
        paginate_spec (Skip format) (Limit (defaultLimit format))
          (zip (endOffsets 0 (merged db)) (map (blockPayload decode format) (merged db)))"
proof -
  from output_facts [OF assms(1), of decode parse format]
  obtain out :: "'m Payload list" where
    g: "GetConnectionPayload decode parse db format = Inr out" and
    b: "map bare out =
        kept (Skip format) 0 (traversal db format)
          (map (blockPayload decode format) (traversal db format))"
    by blast
  have sk: "Skip (defaultLimit format) = Skip format" by (simp add: defaultLimit_def)
  have "map bare out =
        paginate_spec (Skip format) (Limit (defaultLimit format))
          (zip (endOffsets 0 (merged db)) (map (blockPayload decode format) (merged db)))"
    unfolding b traversal_def sk by (rule kept_paginate [OF assms(2)])
  with g show ?thesis by blast
qed

theorem reader_pagination_witness:
  "wf_store ex_late_db \<and>
   unat (Skip (ex_format\<lparr>Skip := 1, Limit := 1\<rparr>)) +
     unat (Limit (defaultLimit (ex_format\<lparr>Skip := 1, Limit := 1\<rparr>))) < 2 ^ 64 \<and>
   (\<exists>out. GetConnectionPayload ex_decode ex_parse ex_late_db (ex_format\<lparr>Skip := 1, Limit := 1\<rparr>)
            = Inr out \<and>
      map bare out =
        paginate_spec 1 1
          (zip (endOffsets 0 (merged ex_late_db))
               (map (blockPayload ex_decode (ex_format\<lparr>Skip := 1, Limit := 1\<rparr>))
                  (merged ex_late_db))))"
proof -
  have w: "wf_store ex_late_db"
    by (simp add: ex_late_db_def spec_defs)
  have u: "unat (Skip (ex_format\<lparr>Skip := 1, Limit := 1\<rparr>)) +
     unat (Limit (defaultLimit (ex_format\<lparr>Skip := 1, Limit := 1\<rparr>))) < 2 ^ 64"
    by (simp add: ex_format_def defaultLimit_def)
  from reader_pagination [OF w u, of ex_decode ex_parse] w u
  show ?thesis by (simp add: ex_format_def defaultLimit_def)
qed

text \<open>
  C5 as stated fails where \<^verbatim>\<open>format.Skip+format.Limit\<close> wraps. With a skip of 5 and a
  limit of \<open>2\<^sup>6\<^sup>4 - 3\<close> the sum of \<^verbatim>\<open>uint64\<close> is 2: the first block, which ends at 3
  and is skipped, already exceeds it, and the function returns no Payload. The blocks
  that end at 7 and 11 come after the skip, and no block exceeds the sum of the two
  numbers.
\<close>

theorem skip_plus_limit_wraps:
  "wf_store ex_wrap_db \<and>
   GetConnectionPayload ex_decode ex_parse ex_wrap_db ex_wrap_format = Inr [] \<and>
   endOffsets 0 (merged ex_wrap_db) = [3, 7, 11] \<and>
   Skip ex_wrap_format + Limit ex_wrap_format = 2 \<and>
   paginate_spec (Skip ex_wrap_format) (Limit ex_wrap_format)
     (zip (endOffsets 0 (merged ex_wrap_db))
          (map (blockPayload ex_decode ex_wrap_format) (merged ex_wrap_db))) =
   [\<lparr>FromClient = True, Content = ''....'', Metadata = None :: nat option,
      IsMetadataContinuation = False, Index = 3, Timestamp = 2, IsRetransmitted = False,
      RegexMatches = []\<rparr>,
    \<lparr>FromClient = True, Content = ''....'', Metadata = None, IsMetadataContinuation = False,
      Index = 7, Timestamp = 3, IsRetransmitted = False, RegexMatches = []\<rparr>]"
  by (simp add: reader_defs ex_wrap_db_def ex_wrap_format_def ex_decode_def ex_parse_def
      spec_defs)

text \<open>
  C6. A limit that is not positive, which for the unsigned field is the limit 0, gives
  the result of the limit 8024; a positive limit is the one the loop runs with.
\<close>

theorem default_limit:
  "(Limit format \<le> 0 \<longrightarrow>
      GetConnectionPayload decode parse db format =
      GetConnectionPayload decode parse db (format\<lparr>Limit := 8024\<rparr>)) \<and>
   (0 < Limit format \<longrightarrow>
      GetConnectionPayload decode parse db format =
      returned (loop decode parse db format (initialCursors db, initialAccum)))"
  by (auto simp: GetConnectionPayload_def GetConnectionPayload_run_def defaultLimit_def
      DefaultQueryFormatLimit_def)

theorem default_limit_witness:
  "Limit ex_format \<le> 0 \<and>
   GetConnectionPayload ex_decode ex_parse ex_tie_db ex_format =
   GetConnectionPayload ex_decode ex_parse ex_tie_db (ex_format\<lparr>Limit := 8024\<rparr>) \<and>
   0 < Limit (ex_format\<lparr>Limit := 2\<rparr>) \<and>
   GetConnectionPayload ex_decode ex_parse ex_tie_db (ex_format\<lparr>Limit := 2\<rparr>) =
   returned (loop ex_decode ex_parse ex_tie_db (ex_format\<lparr>Limit := 2\<rparr>)
     (initialCursors ex_tie_db, initialAccum))"
  using default_limit [of ex_format ex_decode ex_parse ex_tie_db]
    default_limit [of "ex_format\<lparr>Limit := 2\<rparr>" ex_decode ex_parse ex_tie_db]
  by (simp add: ex_format_def)




end
